theory Spec2Isabelle
  imports Main "HOL-Library.AList" "HOL-Library.Sublist" "HOL-Library.Multiset"
begin

text \<open>
  A shallow embedding of the plant-knowledge part of the chat function: the sliding-window
  rate limiter, the TTL cache, the conversation registry, the retrying request and the search
  of the remote client, and the mention extractor. Mutable objects are passed and returned as
  values, a thrown error is the left injection of a sum, and whatever the code reads from
  outside (the clock, the outcome of a fetch) is an argument of the model.
\<close>

section \<open>Sliding-window rate limiter (client.ts, class RateLimiter)\<close>

text \<open>
  Times are the integer millisecond readings of \<^verbatim>\<open>Date.now()\<close>. Every operation that reads
  the clock takes the reading as an argument, so the clock is an input of the model and no
  assumption is made about it.
\<close>

record RateLimiter =
  requestTimes :: "int list"

definition windowMs :: int where
  "windowMs = 60000"

definition maxRequests :: nat where
  "maxRequests = 100"

definition newRateLimiter :: RateLimiter where
  "newRateLimiter = \<lparr>requestTimes = []\<rparr>"

definition rl_cleanup :: "int \<Rightarrow> RateLimiter \<Rightarrow> RateLimiter" where
  "rl_cleanup now rl =
     (let cutoff = now - windowMs
      in rl\<lparr>requestTimes := filter (\<lambda>time. time > cutoff) (requestTimes rl)\<rparr>)"

definition canMakeRequest :: "int \<Rightarrow> RateLimiter \<Rightarrow> bool \<times> RateLimiter" where
  "canMakeRequest now rl =
     (let rl' = rl_cleanup now rl
      in (length (requestTimes rl') < maxRequests, rl'))"

definition recordRequest :: "int \<Rightarrow> RateLimiter \<Rightarrow> RateLimiter" where
  "recordRequest now rl = rl\<lparr>requestTimes := requestTimes rl @ [now]\<rparr>"

text \<open>Recording one request per clock reading of a list, oldest call first.\<close>

fun recordAll :: "int list \<Rightarrow> RateLimiter \<Rightarrow> RateLimiter" where
  "recordAll [] rl = rl"
| "recordAll (t # ts) rl = recordAll ts (recordRequest t rl)"

lemma requestTimes_recordAll:
  "requestTimes (recordAll ts rl) = requestTimes rl @ ts"
  by (induction ts arbitrary: rl) (simp_all add: recordRequest_def)

lemma length_filter_split:
  "length (filter P xs) + length (filter (\<lambda>x. \<not> P x) xs) = length xs"
  by (induction xs) simp_all

text \<open>
  Claim C8. After 100 requests recorded at times \<open>ts\<close> that all lie inside the window
  ending at \<open>now\<close>, \<open>canMakeRequest\<close> answers false. At a later reading \<open>now'\<close> whose
  cutoff has reached the oldest recorded time it answers true again, and the number of free
  slots equals the number of recorded times that the cutoff has passed.
\<close>

theorem rate_limiter_window:
  assumes len: "length ts = 100"
    and rl: "rl = recordAll ts newRateLimiter"
  shows "((\<forall>t \<in> set ts. now - windowMs < t) \<longrightarrow> \<not> fst (canMakeRequest now rl)) \<and>
         (Min (set ts) \<le> now' - windowMs \<longrightarrow>
            fst (canMakeRequest now' rl) \<and>
            maxRequests - length (requestTimes (snd (canMakeRequest now' rl)))
              = length (filter (\<lambda>t. t \<le> now' - windowMs) ts))"
proof -
  have times: "requestTimes rl = ts"
    by (simp add: rl requestTimes_recordAll newRateLimiter_def)
  have full: "\<not> fst (canMakeRequest now rl)" if "\<forall>t \<in> set ts. now - windowMs < t"
  proof -
    from that have "filter (\<lambda>time. time > now - windowMs) ts = ts"
      by (simp add: filter_id_conv)
    then show ?thesis
      by (simp add: canMakeRequest_def rl_cleanup_def times len maxRequests_def)
  qed
  have freed: "fst (canMakeRequest now' rl) \<and>
           maxRequests - length (requestTimes (snd (canMakeRequest now' rl)))
             = length (filter (\<lambda>t. t \<le> now' - windowMs) ts)"
    if old: "Min (set ts) \<le> now' - windowMs"
  proof -
    let ?keep = "filter (\<lambda>time. time > now' - windowMs) ts"
    let ?gone = "filter (\<lambda>t. t \<le> now' - windowMs) ts"
    have ne: "set ts \<noteq> {}" using len by auto
    then have "Min (set ts) \<in> set ts" by (simp add: Min_in)
    then have "Min (set ts) \<in> set ?gone" using old by simp
    then have "?gone \<noteq> []" by (metis empty_iff empty_set)
    then have gone: "0 < length ?gone" by simp
    have "?gone = filter (\<lambda>t. \<not> t > now' - windowMs) ts"
      by (simp add: not_less)
    then have split: "length ?keep + length ?gone = 100"
      using length_filter_split [of "\<lambda>time. time > now' - windowMs" ts] len by simp
    have k: "length ?keep < 100 \<and> 100 - length ?keep = length ?gone"
      using split gone by arith
    have "requestTimes (snd (canMakeRequest now' rl)) = ?keep"
      by (simp add: canMakeRequest_def rl_cleanup_def times)
    moreover have "fst (canMakeRequest now' rl) = (length ?keep < maxRequests)"
      by (simp add: canMakeRequest_def rl_cleanup_def times)
    ultimately show ?thesis
      using k by (simp add: maxRequests_def)
  qed
  show ?thesis using full freed by blast
qed

theorem rate_limiter_window_witness:
  "length (1 # replicate 99 (2::int)) = 100 \<and>
   list_all (\<lambda>t. 50000 - windowMs < t) (1 # replicate 99 (2::int)) \<and>
   Min (set (1 # replicate 99 (2::int))) \<le> 60001 - windowMs \<and>
   \<not> fst (canMakeRequest 50000 (recordAll (1 # replicate 99 2) newRateLimiter)) \<and>
   fst (canMakeRequest 60001 (recordAll (1 # replicate 99 2) newRateLimiter)) \<and>
   maxRequests - length (requestTimes (snd (canMakeRequest 60001
       (recordAll (1 # replicate 99 2) newRateLimiter)))) = 1"
  using rate_limiter_window [of "1 # replicate 99 2"
      "recordAll (1 # replicate 99 2) newRateLimiter" 50000 60001]
  by (simp add: windowMs_def list_all_iff)

section \<open>TTL cache (class TrefleCache of the cache module)\<close>

text \<open>
  The JavaScript \<^verbatim>\<open>Map\<close> is an association list in insertion order with distinct keys:
  \<^verbatim>\<open>Map.set\<close> overwrites in place or appends (\<open>AList.update\<close>), \<^verbatim>\<open>Map.delete\<close>
  removes the key (\<open>AList.delete\<close>). The capacity is a natural number, and
  \<^verbatim>\<open>Math.floor(maxSize * 0.1)\<close> is taken as \<open>maxSize div 10\<close>, the value of the
  double-precision product for the capacities the module uses (200, 300 and 500).
\<close>

record 'a CacheEntry =
  data :: 'a
  timestamp :: int

record 'a TrefleCache =
  cache :: "(string \<times> 'a CacheEntry) list"
  ttlMs :: int
  maxSize :: nat
  name :: string

definition CACHE_TTL_MS :: int where
  "CACHE_TTL_MS = 5 * 60 * 1000"

definition MAX_CACHE_SIZE :: nat where
  "MAX_CACHE_SIZE = 500"

definition newTrefleCache :: "string \<Rightarrow> int \<Rightarrow> nat \<Rightarrow> 'a TrefleCache" where
  "newTrefleCache nm ttl mx = \<lparr>cache = [], ttlMs = ttl, maxSize = mx, name = nm\<rparr>"

definition TrefleCache_get :: "string \<Rightarrow> int \<Rightarrow> 'a TrefleCache \<Rightarrow> 'a option \<times> 'a TrefleCache" where
  "TrefleCache_get key now c =
     (case map_of (cache c) key of
        None \<Rightarrow> (None, c)
      | Some entry \<Rightarrow>
          if now - timestamp entry > ttlMs c
          then (None, c\<lparr>cache := AList.delete key (cache c)\<rparr>)
          else (Some (data entry), c))"

definition evictOldest :: "'a TrefleCache \<Rightarrow> 'a TrefleCache" where
  "evictOldest c =
     (let entriesToRemove = max 1 (maxSize c div 10);
          oldestKeys = map fst (take entriesToRemove
                         (sort_key (\<lambda>e. timestamp (snd e)) (cache c)))
      in c\<lparr>cache := foldl (\<lambda>m key. AList.delete key m) (cache c) oldestKeys\<rparr>)"

definition TrefleCache_set :: "string \<Rightarrow> 'a \<Rightarrow> int \<Rightarrow> 'a TrefleCache \<Rightarrow> 'a TrefleCache" where
  "TrefleCache_set key d now c =
     (let c' = (if length (cache c) \<ge> maxSize c then evictOldest c else c)
      in c'\<lparr>cache := AList.update key \<lparr>data = d, timestamp = now\<rparr> (cache c')\<rparr>)"

definition TrefleCache_size :: "'a TrefleCache \<Rightarrow> nat" where
  "TrefleCache_size c = length (cache c)"

text \<open>A run of \<open>set\<close> calls, each with its key, value and clock reading.\<close>

fun setAll :: "(string \<times> 'a \<times> int) list \<Rightarrow> 'a TrefleCache \<Rightarrow> 'a TrefleCache" where
  "setAll [] c = c"
| "setAll ((k, v, now) # ops) c = setAll ops (TrefleCache_set k v now c)"

lemma evictOldest_fields [simp]:
  "ttlMs (evictOldest c) = ttlMs c" "maxSize (evictOldest c) = maxSize c"
  by (simp_all add: evictOldest_def Let_def)

lemma TrefleCache_set_fields [simp]:
  "ttlMs (TrefleCache_set k v now c) = ttlMs c"
  "maxSize (TrefleCache_set k v now c) = maxSize c"
  by (simp_all add: TrefleCache_set_def Let_def)

lemma map_of_cache_set:
  "map_of (cache (TrefleCache_set k v now c)) k = Some \<lparr>data = v, timestamp = now\<rparr>"
  by (simp add: TrefleCache_set_def Let_def update_conv')

text \<open>
  Claim C2. A \<open>get\<close> of key \<open>k\<close> at time \<open>t1\<close> right after \<open>set k v\<close> at time
  \<open>t0\<close> returns \<open>v\<close> and leaves the cache as it is when \<open>t1 - t0\<close> does not exceed the
  TTL; when it does, the \<open>get\<close> returns nothing and the key is gone from the cache.
\<close>

theorem cache_set_then_get:
  "(t1 - t0 \<le> ttlMs c \<longrightarrow>
      TrefleCache_get k t1 (TrefleCache_set k v t0 c) = (Some v, TrefleCache_set k v t0 c)) \<and>
   (t1 - t0 > ttlMs c \<longrightarrow>
      fst (TrefleCache_get k t1 (TrefleCache_set k v t0 c)) = None \<and>
      k \<notin> fst ` set (cache (snd (TrefleCache_get k t1 (TrefleCache_set k v t0 c)))))"
  by (simp add: TrefleCache_get_def map_of_cache_set delete_notin_dom)

theorem cache_set_then_get_witness:
  "(300000 - 0 \<le> ttlMs (newTrefleCache ''TrefleSpecies'' CACHE_TTL_MS 300 :: nat TrefleCache)) \<and>
   fst (TrefleCache_get ''rose'' 300000
          (TrefleCache_set ''rose'' (7::nat) 0 (newTrefleCache ''TrefleSpecies'' CACHE_TTL_MS 300)))
     = Some 7 \<and>
   (300001 - 0 > ttlMs (newTrefleCache ''TrefleSpecies'' CACHE_TTL_MS 300 :: nat TrefleCache)) \<and>
   TrefleCache_get ''rose'' 300001
          (TrefleCache_set ''rose'' (7::nat) 0 (newTrefleCache ''TrefleSpecies'' CACHE_TTL_MS 300))
     = (None, newTrefleCache ''TrefleSpecies'' CACHE_TTL_MS 300)"
  using cache_set_then_get [of 300000 0 "newTrefleCache ''TrefleSpecies'' CACHE_TTL_MS 300" "''rose''" "7::nat"]
    cache_set_then_get [of 300001 0 "newTrefleCache ''TrefleSpecies'' CACHE_TTL_MS 300" "''rose''" "7::nat"]
  by (simp add: newTrefleCache_def CACHE_TTL_MS_def TrefleCache_get_def TrefleCache_set_def)


subsection \<open>Eviction\<close>

lemma foldl_delete_filter:
  "foldl (\<lambda>m key. AList.delete key m) al ks = filter (\<lambda>p. fst p \<notin> set ks) al"
proof (induction ks arbitrary: al)
  case Nil
  then show ?case by simp
next
  case (Cons k ks)
  have "AList.delete k al = filter (\<lambda>p. fst p \<noteq> k) al"
    by (induction al) auto
  then show ?case
    by (simp add: Cons.IH)
qed

definition evicted :: "'a TrefleCache \<Rightarrow> (string \<times> 'a CacheEntry) list" where
  "evicted c = take (max 1 (maxSize c div 10)) (sort_key (\<lambda>e. timestamp (snd e)) (cache c))"

definition survivors :: "'a TrefleCache \<Rightarrow> (string \<times> 'a CacheEntry) list" where
  "survivors c = drop (max 1 (maxSize c div 10)) (sort_key (\<lambda>e. timestamp (snd e)) (cache c))"

lemma cache_evictOldest:
  "cache (evictOldest c) = filter (\<lambda>p. fst p \<notin> fst ` set (evicted c)) (cache c)"
  by (simp add: evictOldest_def Let_def foldl_delete_filter evicted_def)

lemma evicted_survivors:
  assumes "distinct (map fst (cache c))"
  shows "set (evicted c) \<union> set (survivors c) = set (cache c)"
    and "set (evicted c) \<inter> set (survivors c) = {}"
    and "fst ` set (evicted c) \<inter> fst ` set (survivors c) = {}"
proof -
  let ?s = "sort_key (\<lambda>e. timestamp (snd e)) (cache c)"
  have s: "evicted c @ survivors c = ?s"
    by (simp add: evicted_def survivors_def)
  have "set ?s = set (cache c)" by simp
  then show "set (evicted c) \<union> set (survivors c) = set (cache c)"
    using s by (metis set_append)
  have "mset (map fst ?s) = mset (map fst (cache c))"
    by simp
  then have "distinct (map fst ?s)"
    using assms by (metis mset_eq_imp_distinct_iff)
  then have d: "distinct (map fst (evicted c) @ map fst (survivors c))"
    using s by (metis map_append)
  then show "fst ` set (evicted c) \<inter> fst ` set (survivors c) = {}"
    by simp
  then show "set (evicted c) \<inter> set (survivors c) = {}"
    by auto
qed


lemma evictOldest_survivors:
  assumes "distinct (map fst (cache c))"
  shows "set (cache (evictOldest c)) = set (survivors c)"
  using evicted_survivors [OF assms]
  by (auto simp: cache_evictOldest)

lemma length_evictOldest:
  assumes "distinct (map fst (cache c))"
  shows "length (cache (evictOldest c))
           = length (cache c) - min (max 1 (maxSize c div 10)) (length (cache c))"
proof -
  have dc: "distinct (cache c)"
    using assms by (simp add: distinct_map)
  then have de: "distinct (cache (evictOldest c))"
    by (simp add: cache_evictOldest)
  have "distinct (sort_key (\<lambda>e. timestamp (snd e)) (cache c))"
    using dc by simp
  then have ds: "distinct (survivors c)"
    by (simp add: survivors_def)
  have "length (cache (evictOldest c)) = card (set (cache (evictOldest c)))"
    using de by (simp add: distinct_card)
  also have "\<dots> = card (set (survivors c))"
    by (simp add: evictOldest_survivors [OF assms])
  also have "\<dots> = length (survivors c)"
    using ds by (simp add: distinct_card)
  also have "\<dots> = length (cache c) - min (max 1 (maxSize c div 10)) (length (cache c))"
    by (simp add: survivors_def)
  finally show ?thesis .
qed

lemma evicted_are_oldest:
  assumes "x \<in> set (evicted c)" and "y \<in> set (survivors c)"
  shows "timestamp (snd x) \<le> timestamp (snd y)"
proof -
  let ?s = "sort_key (\<lambda>e. timestamp (snd e)) (cache c)"
  have "sorted (map (\<lambda>e. timestamp (snd e)) ?s)"
    by (rule sorted_sort_key)
  moreover have "?s = evicted c @ survivors c"
    by (simp add: evicted_def survivors_def)
  ultimately have "sorted (map (\<lambda>e. timestamp (snd e)) (evicted c)
                         @ map (\<lambda>e. timestamp (snd e)) (survivors c))"
    by (metis map_append)
  then show ?thesis
    using assms by (auto simp: sorted_append)
qed

lemma distinct_evictOldest:
  "distinct (map fst (cache c)) \<Longrightarrow> distinct (map fst (cache (evictOldest c)))"
  by (simp add: cache_evictOldest distinct_map_filter)

lemma distinct_TrefleCache_set:
  "distinct (map fst (cache c)) \<Longrightarrow> distinct (map fst (cache (TrefleCache_set k v now c)))"
  by (simp add: TrefleCache_set_def Let_def distinct_update distinct_evictOldest)

lemma length_update_le: "length (AList.update k v al) \<le> Suc (length al)"
  by (induction al) simp_all

lemma size_TrefleCache_set:
  assumes "distinct (map fst (cache c))" and "length (cache c) \<le> maxSize c" and "0 < maxSize c"
  shows "length (cache (TrefleCache_set k v now c)) \<le> maxSize c"
proof (cases "maxSize c \<le> length (cache c)")
  case True
  then have "length (cache (evictOldest c)) < maxSize c"
    using assms length_evictOldest [OF assms(1)] by (simp add: min_def max_def split: if_splits)
  moreover have "length (cache (TrefleCache_set k v now c))
                   \<le> Suc (length (cache (evictOldest c)))"
    using True by (simp add: TrefleCache_set_def Let_def length_update_le)
  ultimately show ?thesis by simp
next
  case False
  then have "length (cache (TrefleCache_set k v now c)) \<le> Suc (length (cache c))"
    by (simp add: TrefleCache_set_def Let_def length_update_le)
  then show ?thesis using False by simp
qed

lemma setAll_invariant:
  assumes "distinct (map fst (cache c))" and "length (cache c) \<le> maxSize c" and "0 < maxSize c"
  shows "distinct (map fst (cache (setAll ops c))) \<and>
         length (cache (setAll ops c)) \<le> maxSize c \<and> maxSize (setAll ops c) = maxSize c"
  using assms
proof (induction ops arbitrary: c)
  case Nil
  then show ?case by simp
next
  case (Cons op ops)
  obtain k v now where op: "op = (k, v, now)" by (cases op) auto
  let ?c = "TrefleCache_set k v now c"
  have "distinct (map fst (cache ?c))" "length (cache ?c) \<le> maxSize ?c" "0 < maxSize ?c"
    using Cons.prems by (simp_all add: distinct_TrefleCache_set size_TrefleCache_set)
  from Cons.IH [OF this] show ?case by (simp add: op)
qed

text \<open>
  Claim C3. In every state reached from an empty cache of capacity \<open>mx > 0\<close> by \<open>set\<close> calls
  the size is at most \<open>mx\<close>. When such a state is at capacity, the next \<open>set\<close> first runs
  \<open>evictOldest\<close> and then stores the new entry; \<open>evictOldest\<close> removes exactly
  \<open>max 1 (mx div 10)\<close> entries, and none of the removed entries is younger than a kept one.
\<close>

theorem cache_capacity:
  assumes pos: "0 < mx"
    and c: "c = setAll ops (newTrefleCache nm ttl mx)"
  shows "TrefleCache_size c \<le> mx \<and>
    (mx \<le> TrefleCache_size c \<longrightarrow>
       cache (TrefleCache_set k v now c)
         = AList.update k \<lparr>data = v, timestamp = now\<rparr> (cache (evictOldest c)) \<and>
       TrefleCache_size (evictOldest c) = TrefleCache_size c - max 1 (mx div 10) \<and>
       set (cache (evictOldest c)) \<subseteq> set (cache c) \<and>
       (\<forall>x \<in> set (cache c) - set (cache (evictOldest c)).
          \<forall>y \<in> set (cache (evictOldest c)). timestamp (snd x) \<le> timestamp (snd y)))"
proof -
  let ?c0 = "newTrefleCache nm ttl mx :: 'a TrefleCache"
  have "distinct (map fst (cache ?c0))" "length (cache ?c0) \<le> maxSize ?c0" "0 < maxSize ?c0"
    using pos by (simp_all add: newTrefleCache_def)
  from setAll_invariant [OF this, of ops]
  have d: "distinct (map fst (cache c))" and le: "length (cache c) \<le> mx" and mx: "maxSize c = mx"
    by (simp_all add: c newTrefleCache_def)
  have full: "cache (TrefleCache_set k v now c)
         = AList.update k \<lparr>data = v, timestamp = now\<rparr> (cache (evictOldest c)) \<and>
       TrefleCache_size (evictOldest c) = TrefleCache_size c - max 1 (mx div 10) \<and>
       set (cache (evictOldest c)) \<subseteq> set (cache c) \<and>
       (\<forall>x \<in> set (cache c) - set (cache (evictOldest c)).
          \<forall>y \<in> set (cache (evictOldest c)). timestamp (snd x) \<le> timestamp (snd y))"
    if cap: "mx \<le> length (cache c)"
  proof -
    have len: "length (cache c) = mx" using cap le by simp
    have n: "max 1 (mx div 10) \<le> mx" using pos by (simp add: max_def) 
    have 1: "cache (TrefleCache_set k v now c)
         = AList.update k \<lparr>data = v, timestamp = now\<rparr> (cache (evictOldest c))"
      using cap by (simp add: TrefleCache_set_def Let_def mx)
    have 2: "TrefleCache_size (evictOldest c) = TrefleCache_size c - max 1 (mx div 10)"
      using length_evictOldest [OF d] n by (simp add: TrefleCache_size_def mx len)
    have 3: "set (cache (evictOldest c)) \<subseteq> set (cache c)"
      by (auto simp: cache_evictOldest)
    have "set (cache c) - set (cache (evictOldest c)) \<subseteq> set (evicted c)"
      using evicted_survivors(1) [OF d] by (auto simp: evictOldest_survivors [OF d])
    then have 4: "\<forall>x \<in> set (cache c) - set (cache (evictOldest c)).
          \<forall>y \<in> set (cache (evictOldest c)). timestamp (snd x) \<le> timestamp (snd y)"
      using evicted_are_oldest [of _ c] by (auto simp: evictOldest_survivors [OF d])
    show ?thesis using 1 2 3 4 by blast
  qed
  show ?thesis using le full by (simp add: TrefleCache_size_def)
qed

definition demo_ops :: "(string \<times> nat \<times> int) list" where
  "demo_ops = [(''a'', 1, 10), (''b'', 2, 20)]"

theorem cache_capacity_witness:
  "0 < (2::nat) \<and>
   TrefleCache_size (setAll demo_ops (newTrefleCache ''t'' CACHE_TTL_MS 2)) \<le> 2 \<and>
   2 \<le> TrefleCache_size (setAll demo_ops (newTrefleCache ''t'' CACHE_TTL_MS 2)) \<and>
   cache (evictOldest (setAll demo_ops (newTrefleCache ''t'' CACHE_TTL_MS 2)))
     = [(''b'', \<lparr>data = 2, timestamp = 20\<rparr>)] \<and>
   TrefleCache_size (evictOldest (setAll demo_ops (newTrefleCache ''t'' CACHE_TTL_MS 2))) = 2 - max 1 (2 div 10)"
  using cache_capacity [of 2 "setAll demo_ops (newTrefleCache ''t'' CACHE_TTL_MS 2)" demo_ops "''t''" CACHE_TTL_MS "''c''" 3 30]
  by (simp add: demo_ops_def newTrefleCache_def TrefleCache_set_def TrefleCache_size_def evictOldest_def)

section \<open>Strings\<close>

text \<open>
  A string is a list of code units, each below 256 (the Latin-1 range of UTF-16; code units
  from 256 on are outside the model). In this range \<^verbatim>\<open>toLowerCase\<close> adds 32 to
  \<open>A\<close>..\<open>Z\<close> and to U+00C0..U+00DE except U+00D7, and the white space that \<^verbatim>\<open>trim\<close>
  strips and \<^verbatim>\<open>\s\<close> matches is TAB, LF, VT, FF, CR, SP and NBSP.
\<close>

definition toLowerChar :: "char \<Rightarrow> char" where
  "toLowerChar c =
     (let n = (of_char c :: int)
      in if (65 \<le> n \<and> n \<le> 90) \<or> (192 \<le> n \<and> n \<le> 222 \<and> n \<noteq> 215)
         then char_of (n + 32) else c)"

definition toLowerCase :: "string \<Rightarrow> string" where
  "toLowerCase s = map toLowerChar s"

definition isWhiteSpace :: "char \<Rightarrow> bool" where
  "isWhiteSpace c = ((of_char c :: int) \<in> {9, 10, 11, 12, 13, 32, 160})"

definition trim :: "string \<Rightarrow> string" where
  "trim s = rev (dropWhile isWhiteSpace (rev (dropWhile isWhiteSpace s)))"

section \<open>Conversation plant registry (class ConversationPlantRegistry of the cache module)\<close>

text \<open>
  Of a profile only the identity fields are modelled; no operation below reads another
  field. A \<^verbatim>\<open>null\<close> common name is \<open>None\<close>.
\<close>

record ProcessedPlantData =
  id :: int
  slug :: string
  scientificName :: string
  commonName :: "string option"
  family :: string
  genus :: string

record ConversationPlantRegistry =
  plants :: "(string \<times> ProcessedPlantData) list"
  mentionOrder :: "string list"

definition maxPlants :: nat where
  "maxPlants = 20"

definition newRegistry :: ConversationPlantRegistry where
  "newRegistry = \<lparr>plants = [], mentionOrder = []\<rparr>"

text \<open>
  \<^verbatim>\<open>mentionOrder.shift()\<close> gives \<^verbatim>\<open>undefined\<close> on an empty array, and the test
  \<^verbatim>\<open>if (oldestKey)\<close> is false for \<^verbatim>\<open>undefined\<close> and for the empty string.
\<close>

definition shiftOldest :: "ConversationPlantRegistry \<Rightarrow> ConversationPlantRegistry" where
  "shiftOldest r =
     (case mentionOrder r of
        [] \<Rightarrow> r
      | oldestKey # rest \<Rightarrow>
          (if oldestKey \<noteq> []
           then r\<lparr>plants := AList.delete oldestKey (plants r), mentionOrder := rest\<rparr>
           else r\<lparr>mentionOrder := rest\<rparr>))"

definition addPlant :: "string \<Rightarrow> ProcessedPlantData \<Rightarrow> ConversationPlantRegistry
    \<Rightarrow> ConversationPlantRegistry" where
  "addPlant key plant r =
     (let normalizedKey = trim (toLowerCase key);
          r1 = (if normalizedKey \<notin> fst ` set (plants r)
                then (let r' = (if length (mentionOrder r) \<ge> maxPlants then shiftOldest r else r)
                      in r'\<lparr>mentionOrder := mentionOrder r' @ [normalizedKey]\<rparr>)
                else r)
      in r1\<lparr>plants := AList.update normalizedKey plant (plants r1)\<rparr>)"

definition getAllPlants :: "ConversationPlantRegistry \<Rightarrow> ProcessedPlantData list" where
  "getAllPlants r = map snd (plants r)"

definition registry_size :: "ConversationPlantRegistry \<Rightarrow> nat" where
  "registry_size r = length (plants r)"

text \<open>\<^verbatim>\<open>Array.prototype.slice(start)\<close> with one integer argument.\<close>

definition slice_from :: "int \<Rightarrow> 'a list \<Rightarrow> 'a list" where
  "slice_from start xs =
     (let len = int (length xs);
          k = (if start < 0 then max (len + start) 0 else min start len)
      in drop (nat k) xs)"

definition getRecentPlants :: "int \<Rightarrow> ConversationPlantRegistry \<Rightarrow> ProcessedPlantData list" where
  "getRecentPlants cnt r =
     (let recentKeys = slice_from (- cnt) (mentionOrder r)
      in rev (List.map_filter (\<lambda>key. map_of (plants r) key) recentKeys))"

fun addAll :: "(string \<times> ProcessedPlantData) list \<Rightarrow> ConversationPlantRegistry
    \<Rightarrow> ConversationPlantRegistry" where
  "addAll [] r = r"
| "addAll ((key, plant) # kps) r = addAll kps (addPlant key plant r)"

text \<open>
  What a cache miss of \<^verbatim>\<open>getSpeciesById\<close> or \<^verbatim>\<open>getSpeciesBySlug\<close> does to the registry
  (client.ts 177-180 and 200-203): the profile is registered under its slug and, when the
  common name is a non-empty string, under the common name too.
\<close>

definition registerProcessed :: "ProcessedPlantData \<Rightarrow> ConversationPlantRegistry
    \<Rightarrow> ConversationPlantRegistry" where
  "registerProcessed processed r =
     (let r1 = addPlant (slug processed) processed r
      in case commonName processed of
           None \<Rightarrow> r1
         | Some cn \<Rightarrow> if cn \<noteq> [] then addPlant cn processed r1 else r1)"

text \<open>
  For the comparison with the sequence of insertions: the normalised keys of a sequence of
  \<open>addPlant\<close> calls, the distinct keys among them with the most recent first insertion first,
  and the profile of the last call made under a key.
\<close>

definition keysOf :: "(string \<times> ProcessedPlantData) list \<Rightarrow> string list" where
  "keysOf kps = map (\<lambda>kp. trim (toLowerCase (fst kp))) kps"

definition keysByRecency :: "(string \<times> ProcessedPlantData) list \<Rightarrow> string list" where
  "keysByRecency kps = remdups (rev (keysOf kps))"

definition lastRegistered :: "(string \<times> ProcessedPlantData) list \<Rightarrow> string
    \<Rightarrow> ProcessedPlantData option" where
  "lastRegistered kps k = map_of (rev (zip (keysOf kps) (map snd kps))) k"

subsection \<open>Registry invariant\<close>

definition registry_wf :: "ConversationPlantRegistry \<Rightarrow> bool" where
  "registry_wf r \<longleftrightarrow>
     set (mentionOrder r) \<subseteq> fst ` set (plants r) \<and> distinct (mentionOrder r)"

lemma shiftOldest_wf:
  assumes "registry_wf r"
  shows "registry_wf (shiftOldest r)"
proof (cases "mentionOrder r")
  case Nil
  then show ?thesis using assms by (simp add: shiftOldest_def)
next
  case (Cons k rest)
  have sub: "set rest \<subseteq> fst ` set (plants r)" and k: "k \<notin> set rest" and d: "distinct rest"
    using assms Cons by (auto simp: registry_wf_def)
  have "set rest \<subseteq> fst ` set (AList.delete k (plants r))"
  proof
    fix x assume x: "x \<in> set rest"
    then have "x \<noteq> k" using k by auto
    moreover have "x \<in> set (map fst (plants r))" using x sub by auto
    ultimately have "x \<in> set (removeAll k (map fst (plants r)))" by simp
    then show "x \<in> fst ` set (AList.delete k (plants r))"
      by (simp add: delete_keys [symmetric])
  qed
  then show ?thesis
    using sub d Cons by (simp add: shiftOldest_def registry_wf_def)
qed

lemma set_delete_subset: "set (AList.delete k al) \<subseteq> set al"
  by (induction al) auto

lemma shiftOldest_keys:
  "fst ` set (plants (shiftOldest r)) \<subseteq> fst ` set (plants r)"
proof (cases "mentionOrder r")
  case Nil
  then show ?thesis by (simp add: shiftOldest_def)
next
  case (Cons k rest)
  then show ?thesis
    using dom_delete_subset [of k "plants r"] by (simp add: shiftOldest_def)
qed

lemma addPlant_wf:
  assumes "registry_wf r"
  shows "registry_wf (addPlant key plant r)"
proof -
  let ?k = "trim (toLowerCase key)"
  show ?thesis
  proof (cases "?k \<in> fst ` set (plants r)")
    case True
    then show ?thesis
      using assms by (auto simp: addPlant_def registry_wf_def dom_update)
  next
    case False
    let ?r' = "if length (mentionOrder r) \<ge> maxPlants then shiftOldest r else r"
    have wf': "registry_wf ?r'" using assms by (simp add: shiftOldest_wf)
    have "fst ` set (plants ?r') \<subseteq> fst ` set (plants r)"
      using shiftOldest_keys by auto
    then have notin: "?k \<notin> fst ` set (plants ?r')" using False by blast
    then have "?k \<notin> set (mentionOrder ?r')" using wf' by (auto simp: registry_wf_def)
    moreover have "addPlant key plant r
        = ?r'\<lparr>mentionOrder := mentionOrder ?r' @ [?k],
                plants := AList.update ?k plant (plants ?r')\<rparr>"
      using False by (simp add: addPlant_def Let_def)
    ultimately show ?thesis
      using wf' by (auto simp: registry_wf_def dom_update)
  qed
qed

lemma addAll_wf: "registry_wf r \<Longrightarrow> registry_wf (addAll kps r)"
  by (induction kps arbitrary: r) (auto simp: addPlant_wf)

lemma newRegistry_wf: "registry_wf newRegistry"
  by (simp add: registry_wf_def newRegistry_def)

lemma map_filter_all_Some:
  assumes "set ks \<subseteq> fst ` set al"
  shows "List.map_filter (map_of al) ks = map (\<lambda>k. the (map_of al k)) ks"
  using assms
proof (induction ks)
  case Nil
  then show ?case by simp
next
  case (Cons k ks)
  then have "k \<in> fst ` set al" by simp
  then obtain v where "map_of al k = Some v"
    by (metis domD dom_map_of_conv_image_fst)
  then show ?case using Cons by simp
qed

lemma getRecentPlants_pos:
  assumes "registry_wf r" and "0 < n"
  shows "getRecentPlants n r
    = rev (map (\<lambda>k. the (map_of (plants r) k))
             (drop (length (mentionOrder r) - nat n) (mentionOrder r)))"
proof -
  have s: "slice_from (- n) (mentionOrder r)
             = drop (length (mentionOrder r) - nat n) (mentionOrder r)"
    using assms(2) by (simp add: slice_from_def Let_def max_def nat_diff_distrib')
  have "set (drop (length (mentionOrder r) - nat n) (mentionOrder r)) \<subseteq> fst ` set (plants r)"
    using assms(1) set_drop_subset by (fastforce simp: registry_wf_def)
  then show ?thesis
    by (simp add: getRecentPlants_def Let_def s map_filter_all_Some)
qed

lemma update_fresh: "k \<notin> fst ` set al \<Longrightarrow> AList.update k v al = al @ [(k, v)]"
  by (induction al) auto

lemma addPlant_fresh:
  assumes "trim (toLowerCase key) \<notin> fst ` set (plants r)"
    and "length (mentionOrder r) < maxPlants"
  shows "addPlant key plant r
    = \<lparr>plants = plants r @ [(trim (toLowerCase key), plant)],
        mentionOrder = mentionOrder r @ [trim (toLowerCase key)]\<rparr>"
  using assms by (simp add: addPlant_def Let_def update_fresh)

lemma four_keys:
  assumes "distinct (map (\<lambda>k. trim (toLowerCase k)) [a, b, c, d])"
  shows "getRecentPlants 3 (addAll [(a, pa), (b, pb), (c, pc), (d, pd)] newRegistry)
          = [pd, pc, pb]"
proof -
  let ?a = "trim (toLowerCase a)" and ?b = "trim (toLowerCase b)"
  let ?c = "trim (toLowerCase c)" and ?d = "trim (toLowerCase d)"
  have ne: "?b \<noteq> ?a" "?c \<noteq> ?a" "?c \<noteq> ?b" "?d \<noteq> ?a" "?d \<noteq> ?b" "?d \<noteq> ?c"
    using assms by auto
  have r1: "addPlant a pa newRegistry = \<lparr>plants = [(?a, pa)], mentionOrder = [?a]\<rparr>"
    by (simp add: addPlant_fresh newRegistry_def maxPlants_def)
  have r2: "addPlant b pb \<lparr>plants = [(?a, pa)], mentionOrder = [?a]\<rparr>
              = \<lparr>plants = [(?a, pa), (?b, pb)], mentionOrder = [?a, ?b]\<rparr>"
    using ne by (simp add: addPlant_fresh maxPlants_def)
  have r3: "addPlant c pc \<lparr>plants = [(?a, pa), (?b, pb)], mentionOrder = [?a, ?b]\<rparr>
              = \<lparr>plants = [(?a, pa), (?b, pb), (?c, pc)], mentionOrder = [?a, ?b, ?c]\<rparr>"
    using ne by (simp add: addPlant_fresh maxPlants_def)
  have r4: "addPlant d pd \<lparr>plants = [(?a, pa), (?b, pb), (?c, pc)], mentionOrder = [?a, ?b, ?c]\<rparr>
              = \<lparr>plants = [(?a, pa), (?b, pb), (?c, pc), (?d, pd)],
                  mentionOrder = [?a, ?b, ?c, ?d]\<rparr>"
    using ne by (simp add: addPlant_fresh maxPlants_def)
  have "addAll [(a, pa), (b, pb), (c, pc), (d, pd)] newRegistry
          = \<lparr>plants = [(?a, pa), (?b, pb), (?c, pc), (?d, pd)], mentionOrder = [?a, ?b, ?c, ?d]\<rparr>"
    by (simp add: r1 r2 r3 r4)
  then show ?thesis
    using ne by (simp add: getRecentPlants_def slice_from_def Let_def)
qed

definition plant0 :: ProcessedPlantData where
  "plant0 = \<lparr>id = 0, slug = ''x'', scientificName = ''X y'', commonName = None,
     family = ''F'', genus = ''X''\<rparr>"

definition overflow_keys :: "string list" where
  "overflow_keys = [''  '', ''a'', ''b'', ''c'', ''d'', ''e'', ''f'', ''g'', ''h'', ''i'', ''j'',
     ''k'', ''l'', ''m'', ''n'', ''o'', ''p'', ''q'', ''r'', ''s'', ''t'']"

definition overflowed :: ConversationPlantRegistry where
  "overflowed = addAll (map (\<lambda>k. (k, plant0)) overflow_keys) newRegistry"

definition tomato :: ProcessedPlantData where
  "tomato = \<lparr>id = 1, slug = ''solanum-lycopersicum'', scientificName = ''Solanum lycopersicum'',
     commonName = Some ''Garden tomato'', family = ''Solanaceae'', genus = ''Solanum''\<rparr>"

definition ficus :: ProcessedPlantData where
  "ficus = \<lparr>id = 2, slug = ''ficus-lyrata'', scientificName = ''Ficus lyrata'',
     commonName = Some ''Fiddle-leaf fig'', family = ''Moraceae'', genus = ''Ficus''\<rparr>"

text \<open>
  Claim C6, evaluated where it fails. A key that normalises to the empty string is registered
  first, then twenty one-letter keys. When the twenty-first key arrives the empty key is
  shifted out of the order but stays in the map, so the registry holds 21 keys.
\<close>

theorem registry_empty_key_overflow:
  "length overflow_keys = 21 \<and>
   registry_size overflowed = 21 \<and>
   maxPlants < registry_size overflowed \<and>
   map fst (plants overflowed) = map (\<lambda>k. trim (toLowerCase k)) overflow_keys \<and>
   mentionOrder overflowed = tl overflow_keys"
  by code_simp

subsection \<open>The registry when no key is empty\<close>

text \<open>
  As long as no key normalises to the empty string, the map and the insertion order hold the
  same keys, at most \<open>maxPlants\<close> of them, and a new key arriving at capacity evicts exactly
  the oldest one.
\<close>

definition registry_ok :: "ConversationPlantRegistry \<Rightarrow> bool" where
  "registry_ok r \<longleftrightarrow>
     fst ` set (plants r) = set (mentionOrder r) \<and> distinct (mentionOrder r) \<and>
     distinct (map fst (plants r)) \<and> [] \<notin> set (mentionOrder r) \<and>
     length (mentionOrder r) \<le> maxPlants"

lemma keys_delete: "fst ` set (AList.delete k al) = fst ` set al - {k}"
proof -
  have "set (map fst (AList.delete k al)) = set (map fst al) - {k}"
    by (simp add: delete_keys)
  then show ?thesis by simp
qed

lemma addPlant_at_capacity:
  assumes ok: "registry_ok r" and full: "length (mentionOrder r) = maxPlants"
    and fresh: "trim (toLowerCase key) \<notin> set (mentionOrder r)"
  shows "addPlant key plant r
    = \<lparr>plants = AList.update (trim (toLowerCase key)) plant
                 (AList.delete (hd (mentionOrder r)) (plants r)),
        mentionOrder = tl (mentionOrder r) @ [trim (toLowerCase key)]\<rparr>"
proof -
  obtain k0 rest where m: "mentionOrder r = k0 # rest"
    using full by (cases "mentionOrder r") (simp_all add: maxPlants_def)
  have "k0 \<noteq> []" using ok m by (auto simp: registry_ok_def)
  then have s: "shiftOldest r = r\<lparr>plants := AList.delete k0 (plants r), mentionOrder := rest\<rparr>"
    by (simp add: shiftOldest_def m)
  have "trim (toLowerCase key) \<notin> fst ` set (plants r)"
    using ok fresh by (simp add: registry_ok_def)
  then show ?thesis
    using full by (simp add: addPlant_def Let_def s m)
qed

lemma addPlant_ok:
  assumes ok: "registry_ok r" and ne: "trim (toLowerCase key) \<noteq> []"
  shows "registry_ok (addPlant key plant r)"
proof -
  let ?k = "trim (toLowerCase key)"
  have keys: "fst ` set (plants r) = set (mentionOrder r)"
    and d: "distinct (mentionOrder r)" "distinct (map fst (plants r))"
    and nonempty: "[] \<notin> set (mentionOrder r)" and len: "length (mentionOrder r) \<le> maxPlants"
    using ok by (simp_all add: registry_ok_def)
  consider (known) "?k \<in> set (mentionOrder r)"
    | (room) "?k \<notin> set (mentionOrder r)" "length (mentionOrder r) < maxPlants"
    | (full) "?k \<notin> set (mentionOrder r)" "length (mentionOrder r) = maxPlants"
    using len by linarith
  then show ?thesis
  proof cases
    case known
    then have "addPlant key plant r = r\<lparr>plants := AList.update ?k plant (plants r)\<rparr>"
      using keys by (simp add: addPlant_def Let_def)
    then show ?thesis
      using ok known by (auto simp: registry_ok_def dom_update distinct_update)
  next
    case room
    then have "addPlant key plant r
        = \<lparr>plants = plants r @ [(?k, plant)], mentionOrder = mentionOrder r @ [?k]\<rparr>"
      using keys by (intro addPlant_fresh) simp_all
    then show ?thesis
      using ok room ne by (auto simp: registry_ok_def)
  next
    case full
    obtain k0 rest where m: "mentionOrder r = k0 # rest"
      using full(2) by (cases "mentionOrder r") (simp_all add: maxPlants_def)
    have "fst ` set (AList.update ?k plant (AList.delete k0 (plants r)))
            = set (rest @ [?k])"
      using keys d(1) m by (auto simp: dom_update keys_delete)
    moreover have "distinct (map fst (AList.update ?k plant (AList.delete k0 (plants r))))"
      using d(2) by (simp add: distinct_update distinct_delete)
    moreover have "distinct (rest @ [?k])" "[] \<notin> set (rest @ [?k])"
        "length (rest @ [?k]) \<le> maxPlants"
      using d(1) nonempty len full m ne by auto
    ultimately show ?thesis
      using addPlant_at_capacity [OF ok full(2) full(1), of plant]
      by (simp add: registry_ok_def m)
  qed
qed

lemma addAll_ok:
  assumes "registry_ok r" and "\<forall>(key, plant) \<in> set kps. trim (toLowerCase key) \<noteq> []"
  shows "registry_ok (addAll kps r)"
  using assms
proof (induction kps arbitrary: r)
  case Nil
  then show ?case by simp
next
  case (Cons kp kps)
  obtain key plant where kp: "kp = (key, plant)" by (cases kp) auto
  have "registry_ok (addPlant key plant r)"
    using Cons.prems kp by (intro addPlant_ok) auto
  then show ?case using Cons kp by simp
qed

lemma registry_ok_size:
  assumes "registry_ok r"
  shows "registry_size r = length (mentionOrder r)" and "registry_size r \<le> maxPlants"
proof -
  have "card (set (map fst (plants r))) = card (set (mentionOrder r))"
    using assms by (simp add: registry_ok_def)
  then show "registry_size r = length (mentionOrder r)"
    using assms by (metis distinct_card length_map registry_ok_def registry_size_def)
  then show "registry_size r \<le> maxPlants"
    using assms by (simp add: registry_ok_def)
qed

lemma registry_bounded_without_empty_keys:
  assumes "\<forall>(key, plant) \<in> set kps. trim (toLowerCase key) \<noteq> []"
  shows "registry_size (addAll kps newRegistry) \<le> maxPlants"
proof -
  have "registry_ok newRegistry"
    by (simp add: registry_ok_def newRegistry_def)
  from addAll_ok [OF this assms] show ?thesis
    by (rule registry_ok_size(2))
qed

lemma registry_evicts_oldest:
  assumes ok: "registry_ok r" and full: "length (mentionOrder r) = maxPlants"
    and fresh: "trim (toLowerCase key) \<notin> set (mentionOrder r)"
  shows "mentionOrder (addPlant key plant r) = tl (mentionOrder r) @ [trim (toLowerCase key)]"
    and "map_of (plants (addPlant key plant r))
           = (map_of (plants r))(hd (mentionOrder r) := None, trim (toLowerCase key) \<mapsto> plant)"
  by (simp_all add: addPlant_at_capacity [OF ok full fresh] update_conv' delete_conv')

text \<open>
  Claim C7 as stated fails: the profile that \<open>registerProcessed\<close> stores under its slug and
  under its common name is returned twice.
\<close>

theorem recent_plants_duplicate_counterexample:
  "getRecentPlants 2 (registerProcessed tomato newRegistry) = [tomato, tomato] \<and>
   \<not> distinct (getRecentPlants 2 (registerProcessed tomato newRegistry))"
  by code_simp

subsection \<open>Recent profiles in terms of the insertions\<close>

lemma addAll_snoc: "addAll (kps @ [(key, plant)]) r = addPlant key plant (addAll kps r)"
  by (induction kps arbitrary: r) auto

lemma recent_window:
  "rev (drop (length xs - m) xs) = take m (rev xs)"
proof (cases "m \<le> length xs")
  case True
  then show ?thesis by (simp add: rev_drop)
next
  case False
  then show ?thesis by simp
qed

lemma keysOf_snoc: "keysOf (kps @ [(key, plant)]) = keysOf kps @ [trim (toLowerCase key)]"
  by (simp add: keysOf_def)

text \<open>No more than maxPlants distinct keys: nothing is ever evicted.\<close>

lemma addAll_no_eviction:
  assumes "length (keysByRecency kps) \<le> maxPlants"
  shows "mentionOrder (addAll kps newRegistry) = rev (keysByRecency kps) \<and>
         map_of (plants (addAll kps newRegistry)) = lastRegistered kps \<and>
         fst ` set (plants (addAll kps newRegistry)) = set (keysOf kps)"
  using assms
proof (induction kps rule: rev_induct)
  case Nil
  then show ?case
    by (auto simp: newRegistry_def keysByRecency_def keysOf_def lastRegistered_def)
next
  case (snoc kp kps)
  obtain key plant where kp: "kp = (key, plant)" by (cases kp) auto
  let ?k = "trim (toLowerCase key)"
  let ?r = "addAll kps newRegistry"
  have rec: "keysByRecency (kps @ [kp])
        = (if ?k \<in> set (keysOf kps) then keysByRecency kps else ?k # keysByRecency kps)"
    by (simp add: keysByRecency_def keysOf_snoc kp)
  then have "length (keysByRecency kps) \<le> maxPlants"
    using snoc.prems by (auto split: if_splits)
  from snoc.IH [OF this] have
    mo: "mentionOrder ?r = rev (keysByRecency kps)"
    and mp: "map_of (plants ?r) = lastRegistered kps"
    and keys: "fst ` set (plants ?r) = set (keysOf kps)"
    by blast+
  have last: "lastRegistered (kps @ [kp]) = (lastRegistered kps)(?k \<mapsto> plant)"
    by (rule ext) (simp add: lastRegistered_def keysOf_snoc kp keysOf_def)
  show ?case
  proof (cases "?k \<in> set (keysOf kps)")
    case True
    then have "addPlant key plant ?r = ?r\<lparr>plants := AList.update ?k plant (plants ?r)\<rparr>"
      using keys by (simp add: addPlant_def Let_def)
    then show ?thesis
      using True rec mo mp keys last
      by (auto simp: kp addAll_snoc update_conv' dom_update keysOf_snoc)
  next
    case False
    then have len: "length (mentionOrder ?r) < maxPlants"
      using snoc.prems rec mo by simp
    have fresh: "?k \<notin> fst ` set (plants ?r)" using False keys by simp
    have "addPlant key plant ?r
        = \<lparr>plants = plants ?r @ [(?k, plant)], mentionOrder = mentionOrder ?r @ [?k]\<rparr>"
      by (rule addPlant_fresh [OF fresh len])
    moreover have "map_of (plants ?r @ [(?k, plant)]) = (map_of (plants ?r))(?k \<mapsto> plant)"
      using update_fresh [OF fresh, of plant] update_conv' [of ?k plant "plants ?r"] by simp
    ultimately show ?thesis
      using False rec mo mp keys last
      by (auto simp: kp addAll_snoc keysOf_snoc)
  qed
qed

lemma set_tl_subset: "set (tl xs) \<subseteq> set xs"
  by (cases xs) auto

lemma getRecentPlants_take:
  assumes "registry_wf r" and "0 < n"
  shows "getRecentPlants n r
    = take (nat n) (map (\<lambda>k. the (map_of (plants r) k)) (rev (mentionOrder r)))"
proof -
  have "getRecentPlants n r
    = map (\<lambda>k. the (map_of (plants r) k))
        (rev (drop (length (mentionOrder r) - nat n) (mentionOrder r)))"
    by (simp add: getRecentPlants_pos [OF assms] rev_map)
  then show ?thesis
    by (simp only: recent_window take_map)
qed

lemma addPlant_new_key:
  assumes fresh: "trim (toLowerCase key) \<notin> fst ` set (plants r)" and wf: "registry_wf r"
  shows "mentionOrder (addPlant key plant r)
           = (if length (mentionOrder r) \<ge> maxPlants then tl (mentionOrder r)
              else mentionOrder r) @ [trim (toLowerCase key)]"
    and "\<forall>k \<in> set (mentionOrder (addPlant key plant r)).
           map_of (plants (addPlant key plant r)) k
             = (if k = trim (toLowerCase key) then Some plant else map_of (plants r) k)"
    and "fst ` set (plants (addPlant key plant r))
           \<subseteq> insert (trim (toLowerCase key)) (fst ` set (plants r))"
proof -
  let ?k = "trim (toLowerCase key)"
  let ?r' = "if length (mentionOrder r) \<ge> maxPlants then shiftOldest r else r"
  have add: "addPlant key plant r
        = ?r'\<lparr>mentionOrder := mentionOrder ?r' @ [?k],
                plants := AList.update ?k plant (plants ?r')\<rparr>"
    using fresh by (simp add: addPlant_def Let_def)
  have mo: "mentionOrder ?r'
        = (if length (mentionOrder r) \<ge> maxPlants then tl (mentionOrder r) else mentionOrder r)"
    by (cases "mentionOrder r") (simp_all add: shiftOldest_def)
  show "mentionOrder (addPlant key plant r)
           = (if length (mentionOrder r) \<ge> maxPlants then tl (mentionOrder r)
              else mentionOrder r) @ [?k]"
    by (simp only: add mo) simp
  have same: "map_of (plants ?r') k = map_of (plants r) k" if "k \<in> set (mentionOrder ?r')" for k
  proof (cases "length (mentionOrder r) \<ge> maxPlants")
    case False
    then show ?thesis by simp
  next
    case True
    show ?thesis
    proof (cases "mentionOrder r")
      case Nil
      then show ?thesis using True by (simp add: shiftOldest_def)
    next
      case (Cons k0 rest)
      have "k \<in> set rest" using that True Cons by (auto simp: shiftOldest_def split: if_splits)
      then have "k \<noteq> k0" using wf Cons by (auto simp: registry_wf_def)
      then show ?thesis using True Cons by (simp add: shiftOldest_def delete_conv')
    qed
  qed
  have old: "k \<noteq> ?k" if "k \<in> set (mentionOrder ?r')" for k
  proof -
    have "set (mentionOrder ?r') \<subseteq> set (mentionOrder r)"
      using set_tl_subset [of "mentionOrder r"] by (simp only: mo) auto
    then have "k \<in> fst ` set (plants r)"
      using that wf by (auto simp: registry_wf_def)
    then show ?thesis using fresh by blast
  qed
  show "\<forall>k \<in> set (mentionOrder (addPlant key plant r)).
           map_of (plants (addPlant key plant r)) k
             = (if k = ?k then Some plant else map_of (plants r) k)"
    using same old by (auto simp: add update_conv')
  have sub: "fst ` set (plants ?r') \<subseteq> fst ` set (plants r)"
    using shiftOldest_keys by auto
  have "plants (addPlant key plant r) = AList.update ?k plant (plants ?r')"
    by (simp only: add) simp
  then have "fst ` set (plants (addPlant key plant r)) = insert ?k (fst ` set (plants ?r'))"
    by (simp only: dom_update insert_is_Un [symmetric])
  then show "fst ` set (plants (addPlant key plant r)) \<subseteq> insert ?k (fst ` set (plants r))"
    using sub by blast
qed


lemma addPlant_order_bounded:
  assumes "length (mentionOrder r) \<le> maxPlants"
  shows "length (mentionOrder (addPlant key plant r)) \<le> maxPlants"
proof (cases "trim (toLowerCase key) \<in> fst ` set (plants r)")
  case True
  then show ?thesis using assms by (simp add: addPlant_def Let_def)
next
  case False
  have "length (mentionOrder (shiftOldest r)) = length (mentionOrder r) - 1"
    by (cases "mentionOrder r") (simp_all add: shiftOldest_def)
  then show ?thesis
    using False assms by (auto simp: addPlant_def Let_def maxPlants_def)
qed

lemma addAll_order_bounded:
  "length (mentionOrder r) \<le> maxPlants \<Longrightarrow> length (mentionOrder (addAll kps r)) \<le> maxPlants"
  by (induction kps arbitrary: r) (auto simp: addPlant_order_bounded)

text \<open>A key that the map does not hold goes to the front of the recent profiles.\<close>

lemma getRecentPlants_new_key:
  assumes fresh: "trim (toLowerCase key) \<notin> fst ` set (plants r)" and wf: "registry_wf r"
    and len: "length (mentionOrder r) \<le> maxPlants" and n: "0 < n"
  shows "getRecentPlants n (addPlant key plant r)
           = take (nat n) (plant # getRecentPlants (int maxPlants - 1) r)"
proof -
  let ?k = "trim (toLowerCase key)"
  let ?r1 = "addPlant key plant r"
  let ?base = "if length (mentionOrder r) \<ge> maxPlants then tl (mentionOrder r) else mentionOrder r"
  note new = addPlant_new_key [OF fresh wf, of plant]
  have wf1: "registry_wf ?r1" by (rule addPlant_wf [OF wf])
  have mo1: "mentionOrder ?r1 = ?base @ [?k]" by (rule new(1))
  have sub: "set ?base \<subseteq> set (mentionOrder r)"
    using set_tl_subset [of "mentionOrder r"] by auto
  have notk: "k \<noteq> ?k" if "k \<in> set ?base" for k
  proof -
    have "k \<in> fst ` set (plants r)" using that sub wf by (auto simp: registry_wf_def)
    then show ?thesis using fresh by blast
  qed
  have prof: "map (\<lambda>k. the (map_of (plants ?r1) k)) (rev ?base)
                = map (\<lambda>k. the (map_of (plants r) k)) (rev ?base)"
  proof (rule map_cong [OF refl])
    fix k assume "k \<in> set (rev ?base)"
    then have k: "k \<in> set ?base" by simp
    then have "k \<in> set (mentionOrder ?r1)" by (simp only: mo1) simp
    then show "the (map_of (plants ?r1) k) = the (map_of (plants r) k)"
      using new(2) notk [OF k] by simp
  qed
  have "?k \<in> set (mentionOrder ?r1)" by (simp only: mo1) simp
  then have pk: "map_of (plants ?r1) ?k = Some plant" using new(2) by simp
  have front: "map (\<lambda>k. the (map_of (plants ?r1) k)) (rev (mentionOrder ?r1))
                 = plant # map (\<lambda>k. the (map_of (plants r) k)) (rev ?base)"
    by (simp only: mo1 rev_append rev.simps append.simps list.map pk option.sel prof)
  have "rev ?base = take (maxPlants - 1) (rev (mentionOrder r))"
  proof (cases "length (mentionOrder r) \<ge> maxPlants")
    case True
    then have l: "length (mentionOrder r) = maxPlants" using len by simp
    then obtain k0 rest where m: "mentionOrder r = k0 # rest"
      by (cases "mentionOrder r") (simp_all add: maxPlants_def)
    show ?thesis using True l by (simp add: m)
  next
    case False
    then show ?thesis by simp
  qed
  then have older: "map (\<lambda>k. the (map_of (plants r) k)) (rev ?base)
                 = getRecentPlants (int maxPlants - 1) r"
    using getRecentPlants_take [OF wf, of "int maxPlants - 1"]
    by (simp add: maxPlants_def take_map)
  show ?thesis
    by (simp only: getRecentPlants_take [OF wf1 n] front older)
qed


lemma map_of_zip_distinct:
  assumes "length ks = length ps" and "distinct ks"
  shows "map (\<lambda>k. the (map_of (zip ks ps) k)) ks = ps"
  using assms
proof (induction ks ps rule: list_induct2)
  case Nil
  then show ?case by simp
next
  case (Cons k ks p ps)
  have eq: "map (\<lambda>x. the (map_of (zip (k # ks) (p # ps)) x)) ks
          = map (\<lambda>x. the (map_of (zip ks ps) x)) ks"
    using Cons.prems by (intro map_cong) auto
  have hd: "the (map_of (zip (k # ks) (p # ps)) k) = p" by simp
  show ?case
    unfolding list.map hd eq using Cons by simp
qed

text \<open>Pairwise distinct keys: the order holds the last maxPlants of them.\<close>

lemma addAll_distinct_keys:
  assumes "distinct (keysOf kps)"
  shows "mentionOrder (addAll kps newRegistry) = drop (length kps - maxPlants) (keysOf kps) \<and>
         (\<forall>k \<in> set (mentionOrder (addAll kps newRegistry)).
            map_of (plants (addAll kps newRegistry)) k
              = map_of (zip (keysOf kps) (map snd kps)) k) \<and>
         fst ` set (plants (addAll kps newRegistry)) \<subseteq> set (keysOf kps)"
  using assms
proof (induction kps rule: rev_induct)
  case Nil
  then show ?case by (simp add: newRegistry_def keysOf_def)
next
  case (snoc kp kps)
  obtain key plant where kp: "kp = (key, plant)" by (cases kp) auto
  let ?k = "trim (toLowerCase key)"
  let ?r = "addAll kps newRegistry"
  let ?ks = "keysOf kps"
  have d: "distinct ?ks" and new: "?k \<notin> set ?ks"
    using snoc.prems by (simp_all add: kp keysOf_snoc)
  from snoc.IH [OF d] have
    mo: "mentionOrder ?r = drop (length kps - maxPlants) ?ks"
    and mp: "\<forall>k \<in> set (mentionOrder ?r).
               map_of (plants ?r) k = map_of (zip ?ks (map snd kps)) k"
    and keys: "fst ` set (plants ?r) \<subseteq> set ?ks"
    by blast+
  have wf: "registry_wf ?r" by (simp add: addAll_wf newRegistry_wf)
  have fresh: "?k \<notin> fst ` set (plants ?r)" using new keys by blast
  note step = addPlant_new_key [OF fresh wf, of plant]
  have len: "length ?ks = length kps" by (simp add: keysOf_def)
  have lmo: "length (mentionOrder ?r) = min (length kps) maxPlants"
    by (simp add: mo len min_def)
  have mo1: "mentionOrder (addPlant key plant ?r)
               = drop (length (kps @ [kp]) - maxPlants) (keysOf (kps @ [kp]))"
  proof (cases "length kps < maxPlants")
    case True
    then show ?thesis
      by (simp add: step(1) lmo mo kp keysOf_snoc len)
  next
    case False
    then have "tl (drop (length kps - maxPlants) ?ks) = drop (Suc (length kps) - maxPlants) ?ks"
      by (simp add: drop_Suc [symmetric] tl_drop Suc_diff_le)
    moreover have "Suc 0 - maxPlants = 0" by (simp add: maxPlants_def)
    ultimately show ?thesis
      using False by (simp add: step(1) lmo mo kp keysOf_snoc len)
  qed
  have zip: "zip (keysOf (kps @ [kp])) (map snd (kps @ [kp]))
               = zip ?ks (map snd kps) @ [(?k, plant)]"
    by (simp add: kp keysOf_snoc len)
  have zk: "map_of (zip (keysOf (kps @ [kp])) (map snd (kps @ [kp]))) x
              = (case map_of (zip ?ks (map snd kps)) x of
                   None \<Rightarrow> if x = ?k then Some plant else None
                 | Some v \<Rightarrow> Some v)" for x
    by (simp only: zip map_of_append) (simp add: map_add_def split: option.splits)
  have none: "map_of (zip ?ks (map snd kps)) ?k = None"
    using new by (auto simp: map_of_eq_None_iff dest: set_zip_leftD)
  have mp1: "map_of (plants (addPlant key plant ?r)) k
               = map_of (zip (keysOf (kps @ [kp])) (map snd (kps @ [kp]))) k"
    if k: "k \<in> set (mentionOrder (addPlant key plant ?r))" for k
  proof (cases "k = ?k")
    case True
    then show ?thesis using step(2) k none by (simp only: zk) simp
  next
    case False
    then have "k \<in> set (mentionOrder ?r)"
      using k set_tl_subset [of "mentionOrder ?r"] by (auto simp: step(1) split: if_splits)
    then have "map_of (plants ?r) k = map_of (zip ?ks (map snd kps)) k"
      using mp by blast
    moreover have "map_of (zip (keysOf (kps @ [kp])) (map snd (kps @ [kp]))) k
                     = map_of (zip ?ks (map snd kps)) k"
      using False by (simp only: zk) (simp split: option.splits)
    ultimately show ?thesis using step(2) k False by simp
  qed
  have keys1: "fst ` set (plants (addPlant key plant ?r)) \<subseteq> set (keysOf (kps @ [kp]))"
    using step(3) keys by (auto simp: kp keysOf_snoc)
  show ?case
    using mo1 mp1 keys1 by (simp add: kp addAll_snoc)
qed

lemma fst_set_zip: "length xs = length ys \<Longrightarrow> fst ` set (zip xs ys) = set xs"
  by (induction xs ys rule: list_induct2) auto

text \<open>
  Claim C7, amended. Let the registry be built from the empty one by the \<open>addPlant\<close> calls
  \<open>kps\<close>, and let \<open>n > 0\<close>. Then \<open>getRecentPlants n\<close> returns at most \<open>n\<close> profiles, and

  \<^item> when the normalised keys of \<open>kps\<close> are pairwise distinct (however many there are), the
    result is the profiles of the last \<open>min n maxPlants\<close> calls, the latest call first;

  \<^item> when \<open>kps\<close> has at most \<open>maxPlants\<close> distinct normalised keys (each possibly registered
    several times), the result lists, for the \<open>n\<close> keys whose first insertion is most recent,
    the profile last registered under the key, the most recent first insertion first;

  \<^item> a further \<open>addPlant\<close> under a key that the map does not hold puts its profile first,
    followed by what \<open>getRecentPlants (maxPlants - 1)\<close> returned before.

  After keys with distinct normal forms \<open>a, b, c, d\<close> are inserted into an empty registry,
  \<open>getRecentPlants 3\<close> is the profiles of \<open>d, c, b\<close>. Profiles are not made distinct: the
  result has one profile per key.
\<close>

theorem recent_plants_by_key:
  assumes n: "0 < n" and r: "r = addAll kps newRegistry"
  shows "(distinct (keysOf kps) \<longrightarrow>
            getRecentPlants n r = take (nat n) (take maxPlants (rev (map snd kps)))) \<and>
         (length (keysByRecency kps) \<le> maxPlants \<longrightarrow>
            getRecentPlants n r
              = take (nat n) (List.map_filter (lastRegistered kps) (keysByRecency kps))) \<and>
         (\<forall>key plant. trim (toLowerCase key) \<notin> fst ` set (plants r) \<longrightarrow>
            getRecentPlants n (addPlant key plant r)
              = take (nat n) (plant # getRecentPlants (int maxPlants - 1) r)) \<and>
         length (getRecentPlants n r) \<le> nat n \<and>
         (distinct (map (\<lambda>k. trim (toLowerCase k)) [a, b, c, d]) \<longrightarrow>
            getRecentPlants 3 (addAll [(a, pa), (b, pb), (c, pc), (d, pd)] newRegistry)
              = [pd, pc, pb])"
proof -
  have wf: "registry_wf r"
    by (simp add: r addAll_wf newRegistry_wf)
  have bound: "length (mentionOrder r) \<le> maxPlants"
    by (simp add: r addAll_order_bounded newRegistry_def)
  note g = getRecentPlants_take [OF wf n]
  have one: "getRecentPlants n r = take (nat n) (take maxPlants (rev (map snd kps)))"
    if d: "distinct (keysOf kps)"
  proof -
    let ?ks = "keysOf kps" and ?ps = "map snd kps"
    let ?m = "length kps - maxPlants"
    from addAll_distinct_keys [OF d] have
      mo: "mentionOrder r = drop ?m ?ks"
      and mp: "\<forall>k \<in> set (mentionOrder r). map_of (plants r) k = map_of (zip ?ks ?ps) k"
      by (simp_all add: r)
    have len: "length ?ks = length ?ps" by (simp add: keysOf_def)
    have "map (\<lambda>k. the (map_of (plants r) k)) (mentionOrder r)
            = map (\<lambda>k. the (map_of (zip ?ks ?ps) k)) (mentionOrder r)"
      using mp by (intro map_cong) auto
    also have "\<dots> = drop ?m (map (\<lambda>k. the (map_of (zip ?ks ?ps) k)) ?ks)"
      by (simp add: mo drop_map)
    also have "\<dots> = drop ?m ?ps"
      by (simp only: map_of_zip_distinct [OF len d])
    finally have "map (\<lambda>k. the (map_of (plants r) k)) (rev (mentionOrder r))
                    = rev (drop (length ?ps - maxPlants) ?ps)"
      by (simp add: rev_map [symmetric])
    then show ?thesis
      by (simp only: g recent_window)
  qed
  have two: "getRecentPlants n r
              = take (nat n) (List.map_filter (lastRegistered kps) (keysByRecency kps))"
    if le: "length (keysByRecency kps) \<le> maxPlants"
  proof -
    from addAll_no_eviction [OF le] have
      mo: "mentionOrder r = rev (keysByRecency kps)"
      and mp: "map_of (plants r) = lastRegistered kps"
      by (simp_all add: r)
    let ?al = "rev (zip (keysOf kps) (map snd kps))"
    have "fst ` set ?al = set (keysOf kps)"
      by (simp add: fst_set_zip keysOf_def)
    then have "set (keysByRecency kps) \<subseteq> fst ` set ?al"
      by (simp add: keysByRecency_def)
    from map_filter_all_Some [OF this]
    have "List.map_filter (lastRegistered kps) (keysByRecency kps)
            = map (\<lambda>k. the (lastRegistered kps k)) (keysByRecency kps)"
      by (simp add: lastRegistered_def [abs_def])
    then show ?thesis
      by (simp add: g mo mp)
  qed
  have three: "getRecentPlants n (addPlant key plant r)
              = take (nat n) (plant # getRecentPlants (int maxPlants - 1) r)"
    if "trim (toLowerCase key) \<notin> fst ` set (plants r)" for key plant
    using that wf bound n by (rule getRecentPlants_new_key)
  have four: "length (getRecentPlants n r) \<le> nat n"
    by (simp add: g)
  have abcd: "getRecentPlants 3 (addAll [(a, pa), (b, pb), (c, pc), (d, pd)] newRegistry)
          = [pd, pc, pb]"
    if "distinct (map (\<lambda>k. trim (toLowerCase k)) [a, b, c, d])"
    using that by (rule four_keys)
  show ?thesis
    using one two three four abcd by blast
qed

definition herbs :: "(string \<times> ProcessedPlantData) list" where
  "herbs = [(''Basil'', plant0), ('' mint'', tomato), (''Sage '', plant0), (''thyme'', tomato)]"

definition repeated :: "(string \<times> ProcessedPlantData) list" where
  "repeated = [(''Rose'', plant0), (''Tomato'', tomato), (''rose '', ficus)]"

theorem recent_plants_by_key_witness:
  "(0::int) < 3 \<and> distinct (keysOf herbs) \<and>
   getRecentPlants 3 (addAll herbs newRegistry) = [tomato, plant0, tomato] \<and>
   length (keysByRecency repeated) \<le> maxPlants \<and>
   getRecentPlants 3 (addAll repeated newRegistry) = [tomato, ficus] \<and>
   trim (toLowerCase ''Ficus'') \<notin> fst ` set (plants (addAll repeated newRegistry)) \<and>
   getRecentPlants 3 (addPlant ''Ficus'' tomato (addAll repeated newRegistry))
     = [tomato, tomato, ficus] \<and>
   length (getRecentPlants 3 (addAll repeated newRegistry)) \<le> nat 3"
proof -
  have pos: "(0::int) < 3" by simp
  have d: "distinct (keysOf herbs)" by code_simp
  have le: "length (keysByRecency repeated) \<le> maxPlants" by code_simp
  have fresh: "trim (toLowerCase ''Ficus'') \<notin> fst ` set (plants (addAll repeated newRegistry))"
    by code_simp
  have v1: "take (nat 3) (take maxPlants (rev (map snd herbs))) = [tomato, plant0, tomato]"
    by code_simp
  have v2: "take (nat 3) (List.map_filter (lastRegistered repeated) (keysByRecency repeated))
              = [tomato, ficus]"
    by code_simp
  have v3: "take (nat 3) (tomato # getRecentPlants (int maxPlants - 1) (addAll repeated newRegistry))
              = [tomato, tomato, ficus]"
    by code_simp
  note h = recent_plants_by_key [OF pos refl, of herbs]
  note t = recent_plants_by_key [OF pos refl, of repeated]
  from h d v1 have a: "getRecentPlants 3 (addAll herbs newRegistry) = [tomato, plant0, tomato]"
    by simp
  from t le v2 have b: "getRecentPlants 3 (addAll repeated newRegistry) = [tomato, ficus]"
    by simp
  from t have "\<forall>key plant.
       trim (toLowerCase key) \<notin> fst ` set (plants (addAll repeated newRegistry)) \<longrightarrow>
       getRecentPlants 3 (addPlant key plant (addAll repeated newRegistry))
         = take (nat 3) (plant # getRecentPlants (int maxPlants - 1) (addAll repeated newRegistry))"
    by blast
  then have c: "getRecentPlants 3 (addPlant ''Ficus'' tomato (addAll repeated newRegistry))
     = [tomato, tomato, ficus]"
    using fresh v3 by simp
  from t have e: "length (getRecentPlants 3 (addAll repeated newRegistry)) \<le> nat 3"
    by blast
  show ?thesis
    using pos d a le b fresh c e by blast
qed

section \<open>Remote client: request with retries (client.ts, TrefleClient.request)\<close>

definition REQUEST_TIMEOUT_MS :: int where
  "REQUEST_TIMEOUT_MS = 10000"

definition MAX_RETRIES :: nat where
  "MAX_RETRIES = 2"

definition RETRY_DELAY_MS :: int where
  "RETRY_DELAY_MS = 1000"

text \<open>
  What one \<^verbatim>\<open>fetch\<close> does: it resolves to a response with an HTTP status, whose
  \<^verbatim>\<open>json()\<close> gives a value or throws (\<open>None\<close>), or it rejects (a network error, or the
  abort that the timer fires after \<open>REQUEST_TIMEOUT_MS\<close>).
\<close>

datatype 'a FetchOutcome =
    Response nat "'a option"
  | FetchRejected

text \<open>
  The errors \<^verbatim>\<open>request\<close> can throw: the three classified classes, and plain
  \<^verbatim>\<open>Error\<close>s told apart by their message.
\<close>

datatype RequestError =
    TrefleNotFoundError
  | TrefleAuthError
  | TrefleRateLimitError
  | RateLimitExceeded
  | ServerError nat
  | ApiError nat
  | JsonError
  | FetchError
  | RequestFailedAfterRetries

record 'a RequestResult =
  outcome :: "RequestError + 'a"
  calls :: nat
  delays :: "int list"
  limiter :: RateLimiter

text \<open>
  The world of one \<^verbatim>\<open>request\<close>: for each attempt number, the clock reading that
  \<^verbatim>\<open>recordRequest\<close> stores and the outcome of the \<^verbatim>\<open>fetch\<close>. The loop counts the
  \<^verbatim>\<open>fetch\<close> calls and lists the delays it waited. A \<^verbatim>\<open>throw\<close> inside the
  \<^verbatim>\<open>try\<close> block lands in its \<^verbatim>\<open>catch\<close>, which rethrows the three classified errors
  and keeps every other error as \<^verbatim>\<open>lastError\<close> for the next round.
\<close>

function request_loop :: "(nat \<Rightarrow> int \<times> 'a FetchOutcome) \<Rightarrow> nat \<Rightarrow> RequestError option
    \<Rightarrow> RateLimiter \<Rightarrow> nat \<Rightarrow> int list \<Rightarrow> 'a RequestResult" where
  "request_loop env attempt lastError rl n ds =
     (if attempt \<le> MAX_RETRIES
      then
        (let ds' = (if attempt > 0 then ds @ [RETRY_DELAY_MS * int attempt] else ds);
             rl' = recordRequest (fst (env attempt)) rl;
             n' = Suc n
         in case snd (env attempt) of
              Response status body \<Rightarrow>
                if 200 \<le> status \<and> status \<le> 299
                then (case body of
                        Some d \<Rightarrow> \<lparr>outcome = Inr d, calls = n', delays = ds', limiter = rl'\<rparr>
                      | None \<Rightarrow> request_loop env (Suc attempt) (Some JsonError) rl' n' ds')
                else if status = 404
                then \<lparr>outcome = Inl TrefleNotFoundError, calls = n', delays = ds', limiter = rl'\<rparr>
                else if status = 401
                then \<lparr>outcome = Inl TrefleAuthError, calls = n', delays = ds', limiter = rl'\<rparr>
                else if status = 429
                then \<lparr>outcome = Inl TrefleRateLimitError, calls = n', delays = ds', limiter = rl'\<rparr>
                else if status \<ge> 500
                then request_loop env (Suc attempt) (Some (ServerError status)) rl' n' ds'
                else request_loop env (Suc attempt) (Some (ApiError status)) rl' n' ds'
            | FetchRejected \<Rightarrow> request_loop env (Suc attempt) (Some FetchError) rl' n' ds')
      else \<lparr>outcome = Inl (case lastError of Some e \<Rightarrow> e | None \<Rightarrow> RequestFailedAfterRetries),
             calls = n, delays = ds, limiter = rl\<rparr>)"
  by pat_completeness auto
termination
  by (relation "measure (\<lambda>(env, attempt, lastError, rl, n, ds). Suc MAX_RETRIES - attempt)") auto

definition request :: "RateLimiter \<Rightarrow> int \<Rightarrow> (nat \<Rightarrow> int \<times> 'a FetchOutcome) \<Rightarrow> 'a RequestResult" where
  "request rl now env =
     (let (ok, rl') = canMakeRequest now rl
      in if \<not> ok
         then \<lparr>outcome = Inl RateLimitExceeded, calls = 0, delays = [], limiter = rl'\<rparr>
         else request_loop env 0 None rl' 0 [])"

text \<open>A world given by a list of outcomes, all at one clock reading; past the list every fetch is rejected.\<close>

definition outcomes_at :: "int \<Rightarrow> 'a FetchOutcome list \<Rightarrow> nat \<Rightarrow> int \<times> 'a FetchOutcome" where
  "outcomes_at t os i = (t, if i < length os then os ! i else FetchRejected)"

declare request_loop.simps [simp del]

lemma request_loop_stop:
  "\<not> attempt \<le> MAX_RETRIES \<Longrightarrow>
   request_loop env attempt lastError rl n ds
     = \<lparr>outcome = Inl (case lastError of Some e \<Rightarrow> e | None \<Rightarrow> RequestFailedAfterRetries),
         calls = n, delays = ds, limiter = rl\<rparr>"
  by (subst request_loop.simps) simp

definition next_delays :: "nat \<Rightarrow> int list \<Rightarrow> int list" where
  "next_delays attempt ds = (if attempt > 0 then ds @ [RETRY_DELAY_MS * int attempt] else ds)"

definition retryable :: "'a FetchOutcome \<Rightarrow> RequestError option" where
  "retryable out =
     (case out of
        FetchRejected \<Rightarrow> Some FetchError
      | Response status body \<Rightarrow>
          if 200 \<le> status \<and> status \<le> 299
          then (case body of Some d \<Rightarrow> None | None \<Rightarrow> Some JsonError)
          else if status = 404 \<or> status = 401 \<or> status = 429 then None
          else if status \<ge> 500 then Some (ServerError status)
          else Some (ApiError status))"

definition final :: "'a FetchOutcome \<Rightarrow> (RequestError + 'a) option" where
  "final out =
     (case out of
        FetchRejected \<Rightarrow> None
      | Response status body \<Rightarrow>
          if 200 \<le> status \<and> status \<le> 299
          then (case body of Some d \<Rightarrow> Some (Inr d) | None \<Rightarrow> None)
          else if status = 404 then Some (Inl TrefleNotFoundError)
          else if status = 401 then Some (Inl TrefleAuthError)
          else if status = 429 then Some (Inl TrefleRateLimitError)
          else None)"

lemma request_loop_retry:
  assumes "attempt \<le> MAX_RETRIES" and "retryable (snd (env attempt)) = Some e"
  shows "request_loop env attempt lastError rl n ds
     = request_loop env (Suc attempt) (Some e) (recordRequest (fst (env attempt)) rl) (Suc n)
         (next_delays attempt ds)"
proof (cases "snd (env attempt)")
  case FetchRejected
  then show ?thesis
    using assms by (subst request_loop.simps) (simp add: retryable_def next_delays_def Let_def)
next
  case (Response status body)
  then show ?thesis
    using assms
    by (subst request_loop.simps)
       (auto simp: retryable_def next_delays_def Let_def split: option.splits if_splits)
qed

lemma request_loop_final:
  assumes "attempt \<le> MAX_RETRIES" and "final (snd (env attempt)) = Some res"
  shows "request_loop env attempt lastError rl n ds
     = \<lparr>outcome = res, calls = Suc n, delays = next_delays attempt ds,
         limiter = recordRequest (fst (env attempt)) rl\<rparr>"
proof (cases "snd (env attempt)")
  case FetchRejected
  then show ?thesis
    using assms by (simp add: final_def)
next
  case (Response status body)
  then show ?thesis
    using assms
    by (subst request_loop.simps)
       (auto simp: final_def next_delays_def Let_def split: option.splits if_splits)
qed

lemma retryable_or_final:
  "(\<exists>e. retryable out = Some e \<and> final out = None) \<or> (\<exists>res. final out = Some res \<and> retryable out = None)"
  by (auto simp: retryable_def final_def split: FetchOutcome.splits option.splits)

lemma next_delays_upt:
  "next_delays attempt (map (\<lambda>a. RETRY_DELAY_MS * int a) [Suc 0..<attempt])
     = map (\<lambda>a. RETRY_DELAY_MS * int a) [Suc 0..<Suc attempt]"
  by (cases attempt) (simp_all add: next_delays_def)

lemma request_loop_invariant:
  assumes "n = attempt" and "ds = map (\<lambda>a. RETRY_DELAY_MS * int a) [1..<attempt]"
    and "attempt \<le> Suc MAX_RETRIES"
  shows "calls (request_loop env attempt lastError rl n ds) \<le> Suc MAX_RETRIES \<and>
         delays (request_loop env attempt lastError rl n ds)
           = map (\<lambda>a. RETRY_DELAY_MS * int a) [1..<calls (request_loop env attempt lastError rl n ds)]"
  using assms
proof (induction "Suc MAX_RETRIES - attempt" arbitrary: attempt lastError rl n ds)
  case 0
  then have "\<not> attempt \<le> MAX_RETRIES" by simp
  then show ?case using "0.prems" by (simp add: request_loop_stop)
next
  case (Suc k)
  then have le: "attempt \<le> MAX_RETRIES" by simp
  from retryable_or_final [of "snd (env attempt)"] show ?case
  proof (elim disjE exE conjE)
    fix e assume "retryable (snd (env attempt)) = Some e"
    from request_loop_retry [where env=env and attempt=attempt, OF le this]
    have eq: "request_loop env attempt lastError rl n ds
       = request_loop env (Suc attempt) (Some e) (recordRequest (fst (env attempt)) rl) (Suc n)
           (map (\<lambda>a. RETRY_DELAY_MS * int a) [1..<Suc attempt])"
      using Suc.prems by (simp add: next_delays_upt del: upt_Suc)
    have k: "k = Suc MAX_RETRIES - Suc attempt" using Suc.hyps(2) by simp
    have n: "Suc n = Suc attempt" using Suc.prems(1) by simp
    have a: "Suc attempt \<le> Suc MAX_RETRIES" using le by simp
    show ?thesis
      unfolding eq by (rule Suc.hyps(1) [OF k n refl a])
  next
    fix res assume "final (snd (env attempt)) = Some res"
    from request_loop_final [where env=env and attempt=attempt, OF le this]
    show ?thesis using le Suc.prems by (simp add: next_delays_upt del: upt_Suc)
  qed
qed

lemma request_bounded:
  "calls (request rl now env) \<le> Suc MAX_RETRIES \<and>
   delays (request rl now env)
     = map (\<lambda>a. RETRY_DELAY_MS * int a) [1..<calls (request rl now env)]"
proof (cases "fst (canMakeRequest now rl)")
  case False
  then show ?thesis by (simp add: request_def split_def)
next
  case True
  then have "request rl now env = request_loop env 0 None (snd (canMakeRequest now rl)) 0 []"
    by (simp add: request_def split_def)
  then show ?thesis
    using request_loop_invariant [of 0 0 "[]" env None "snd (canMakeRequest now rl)"] by simp
qed

lemma request_capacity_error:
  "\<not> fst (canMakeRequest now rl) \<Longrightarrow>
   outcome (request rl now env) = Inl RateLimitExceeded \<and> calls (request rl now env) = 0"
  by (simp add: request_def split_def)

lemma request_classified_first:
  assumes "fst (canMakeRequest now rl)" and "snd (env 0) = Response status body"
  shows "status = 404 \<Longrightarrow> outcome (request rl now env) = Inl TrefleNotFoundError \<and> calls (request rl now env) = 1"
    and "status = 401 \<Longrightarrow> outcome (request rl now env) = Inl TrefleAuthError \<and> calls (request rl now env) = 1"
    and "status = 429 \<Longrightarrow> outcome (request rl now env) = Inl TrefleRateLimitError \<and> calls (request rl now env) = 1"
  using assms
  by (simp_all add: request_def split_def request_loop_final [where env=env and attempt=0] final_def MAX_RETRIES_def)

lemma request_two_server_errors_then_ok:
  assumes ok: "fst (canMakeRequest now rl)"
    and e0: "snd (env 0) = Response s0 b0" "500 \<le> s0"
    and e1: "snd (env 1) = Response s1 b1" "500 \<le> s1"
    and e2: "snd (env 2) = Response 200 (Some d)"
  shows "outcome (request rl now env) = Inr d \<and> calls (request rl now env) = 3 \<and>
         delays (request rl now env) = [RETRY_DELAY_MS * 1, RETRY_DELAY_MS * 2]"
proof -
  have r0: "retryable (snd (env 0)) = Some (ServerError s0)"
    using e0 by (simp add: retryable_def)
  have r1: "retryable (snd (env (Suc 0))) = Some (ServerError s1)"
    using e1 by (simp add: retryable_def)
  have f2: "final (snd (env (Suc (Suc 0)))) = Some (Inr d)"
    using e2 by (simp add: final_def numeral_2_eq_2)
  have "request rl now env = request_loop env 0 None (snd (canMakeRequest now rl)) 0 []"
    using ok by (simp add: request_def split_def)
  then show ?thesis
    by (simp add: request_loop_retry [where env=env and attempt=0, OF _ r0]
        request_loop_retry [where env=env and attempt="Suc 0", OF _ r1]
        request_loop_final [where env=env and attempt="Suc (Suc 0)", OF _ f2]
        MAX_RETRIES_def next_delays_def)
qed

text \<open>
  Claim C1, evaluated where it fails. The first response has status 400, which is neither a
  server error nor a network failure; the client nevertheless waits and calls again, and
  returns the second response.
\<close>

theorem request_retries_client_error:
  "request newRateLimiter 0 (outcomes_at 0 [Response 400 None, Response 200 (Some (7::nat))])
     = \<lparr>outcome = Inr 7, calls = 2, delays = [1000],
         limiter = \<lparr>requestTimes = [0, 0]\<rparr>\<rparr>"
  by code_simp

section \<open>Remote client: search (client.ts, TrefleClient.searchPlants)\<close>

text \<open>\<^verbatim>\<open>replace(/\s+/g, " ")\<close>: every maximal run of white space becomes one space.\<close>

fun collapseRuns :: "bool \<Rightarrow> string \<Rightarrow> string" where
  "collapseRuns inRun [] = []"
| "collapseRuns inRun (c # cs) =
     (if isWhiteSpace c
      then (if inRun then collapseRuns True cs else CHR '' '' # collapseRuns True cs)
      else c # collapseRuns False cs)"

definition normalizeSearchKey :: "string \<Rightarrow> string" where
  "normalizeSearchKey query = collapseRuns False (trim (toLowerCase query))"

text \<open>\<^verbatim>\<open>Array.prototype.slice(0, end)\<close> with an integer \<open>end\<close>.\<close>

definition slice_to :: "int \<Rightarrow> 'a list \<Rightarrow> 'a list" where
  "slice_to e xs =
     (let len = int (length xs);
          k = (if e < 0 then max (len + e) 0 else min e len)
      in take (nat k) xs)"

text \<open>
  The part of the module state that \<^verbatim>\<open>searchPlants\<close> touches, and the world of one call:
  the clock readings of the cache lookup, of the capacity check and of the cache store, and
  the fetch outcomes. The body of a successful response is its \<^verbatim>\<open>data\<close> list. Besides
  the result the model returns the number of \<^verbatim>\<open>fetch\<close> calls made.
\<close>

record 's ClientState =
  searchResultsCache :: "'s list TrefleCache"
  rateLimiter :: RateLimiter

record 's SearchWorld =
  at_get :: int
  at_check :: int
  fetches :: "nat \<Rightarrow> int \<times> 's list FetchOutcome"
  at_set :: int

definition searchPlants :: "string \<Rightarrow> int \<Rightarrow> 's SearchWorld \<Rightarrow> 's ClientState
    \<Rightarrow> (RequestError + 's list) \<times> nat \<times> 's ClientState" where
  "searchPlants query limit w st =
     (let normalizedQuery = normalizeSearchKey query;
          (cached, c1) = TrefleCache_get normalizedQuery (at_get w) (searchResultsCache st)
      in case cached of
           Some res \<Rightarrow> (Inr res, 0, st\<lparr>searchResultsCache := c1\<rparr>)
         | None \<Rightarrow>
             (let rr = request (rateLimiter st) (at_check w) (fetches w)
              in case outcome rr of
                   Inl e \<Rightarrow> (Inl e, calls rr, st\<lparr>searchResultsCache := c1, rateLimiter := limiter rr\<rparr>)
                 | Inr body \<Rightarrow>
                     (let results = slice_to limit body;
                          c2 = TrefleCache_set normalizedQuery results (at_set w) c1
                      in (Inr results, calls rr,
                          st\<lparr>searchResultsCache := c2, rateLimiter := limiter rr\<rparr>))))"

text \<open>A run of calls; the results in call order and the final state.\<close>

fun searchMany :: "(string \<times> int \<times> 's SearchWorld) list \<Rightarrow> 's ClientState
    \<Rightarrow> ((RequestError + 's list) \<times> nat) list \<times> 's ClientState" where
  "searchMany [] st = ([], st)"
| "searchMany ((q, l, w) # cs) st =
     (case searchPlants q l w st of
        (res, n, st') \<Rightarrow> (case searchMany cs st' of (rs, st'') \<Rightarrow> ((res, n) # rs, st'')))"

lemma searchPlants_hit:
  assumes "map_of (cache (searchResultsCache st)) (normalizeSearchKey q) = Some e"
    and "at_get w - timestamp e \<le> ttlMs (searchResultsCache st)"
  shows "searchPlants q l w st = (Inr (data e), 0, st)"
  using assms by (simp add: searchPlants_def TrefleCache_get_def)

lemma TrefleCache_get_fields [simp]:
  "ttlMs (snd (TrefleCache_get k now c)) = ttlMs c"
  "maxSize (snd (TrefleCache_get k now c)) = maxSize c"
  by (simp_all add: TrefleCache_get_def split: option.splits)

lemma searchPlants_miss_success:
  assumes "searchPlants q l w st = (Inr res, n, st')" and "0 < n"
  shows "\<exists>body. outcome (request (rateLimiter st) (at_check w) (fetches w)) = Inr body \<and>
           res = slice_to l body \<and>
           n = calls (request (rateLimiter st) (at_check w) (fetches w)) \<and>
           map_of (cache (searchResultsCache st')) (normalizeSearchKey q)
             = Some \<lparr>data = res, timestamp = at_set w\<rparr> \<and>
           ttlMs (searchResultsCache st') = ttlMs (searchResultsCache st)"
  using assms
  by (auto simp: searchPlants_def Let_def split_def map_of_cache_set
      split: option.splits sum.splits)

lemma searchMany_hits:
  assumes "map_of (cache (searchResultsCache st)) k = Some e"
    and "\<forall>(q, l, w) \<in> set cs. normalizeSearchKey q = k \<and>
            at_get w - timestamp e \<le> ttlMs (searchResultsCache st)"
  shows "searchMany cs st = (replicate (length cs) (Inr (data e), 0), st)"
  using assms
proof (induction cs)
  case Nil
  then show ?case by simp
next
  case (Cons c cs)
  obtain q l w where c: "c = (q, l, w)" by (cases c) auto
  have "searchPlants q l w st = (Inr (data e), 0, st)"
    using Cons.prems c by (intro searchPlants_hit) auto
  then show ?case using Cons c by simp
qed

lemma TrefleCache_get_other:
  assumes "k' \<noteq> k"
  shows "map_of (cache (snd (TrefleCache_get k' now c))) k = map_of (cache c) k"
    and "length (cache (snd (TrefleCache_get k' now c))) \<le> length (cache c)"
  using assms
  by (auto simp: TrefleCache_get_def delete_conv' length_delete_le split: option.splits)

lemma TrefleCache_set_other:
  assumes "k' \<noteq> k" and "length (cache c) < maxSize c"
  shows "map_of (cache (TrefleCache_set k' v now c)) k = map_of (cache c) k"
    and "length (cache (TrefleCache_set k' v now c)) \<le> Suc (length (cache c))"
  using assms
  by (auto simp: TrefleCache_set_def update_conv' length_update_le)

lemma searchPlants_other:
  assumes k: "normalizeSearchKey q \<noteq> k"
    and room: "length (cache (searchResultsCache st)) < maxSize (searchResultsCache st)"
    and call: "searchPlants q l w st = (res, n, st')"
  shows "map_of (cache (searchResultsCache st')) k = map_of (cache (searchResultsCache st)) k"
    and "length (cache (searchResultsCache st')) \<le> Suc (length (cache (searchResultsCache st)))"
    and "ttlMs (searchResultsCache st') = ttlMs (searchResultsCache st)"
    and "maxSize (searchResultsCache st') = maxSize (searchResultsCache st)"
proof -
  let ?g = "TrefleCache_get (normalizeSearchKey q) (at_get w) (searchResultsCache st)"
  have g1: "map_of (cache (snd ?g)) k = map_of (cache (searchResultsCache st)) k"
    and g2: "length (cache (snd ?g)) \<le> length (cache (searchResultsCache st))"
    using TrefleCache_get_other [OF k] by blast+
  have g3: "length (cache (snd ?g)) < maxSize (snd ?g)"
    using g2 room by simp
  have s1: "map_of (cache (TrefleCache_set (normalizeSearchKey q) v now (snd ?g))) k
              = map_of (cache (searchResultsCache st)) k" for v now
    using TrefleCache_set_other(1) [OF k g3] g1 by simp
  have s2: "length (cache (TrefleCache_set (normalizeSearchKey q) v now (snd ?g)))
              \<le> Suc (length (cache (searchResultsCache st)))" for v now
    using TrefleCache_set_other(2) [OF k g3, of v now] g2 by simp
  have cases: "searchResultsCache st' = snd ?g \<or>
     (\<exists>v now. searchResultsCache st' = TrefleCache_set (normalizeSearchKey q) v now (snd ?g))"
  proof (cases "fst ?g")
    case (Some r)
    then show ?thesis
      using call by (auto simp: searchPlants_def Let_def split_def)
  next
    case None
    show ?thesis
    proof (cases "outcome (request (rateLimiter st) (at_check w) (fetches w))")
      case (Inl err)
      then show ?thesis
        using call None by (auto simp: searchPlants_def Let_def split_def)
    next
      case (Inr body)
      then have "searchResultsCache st'
          = TrefleCache_set (normalizeSearchKey q) (slice_to l body) (at_set w) (snd ?g)"
        using call None by (auto simp: searchPlants_def Let_def split_def)
      then show ?thesis by blast
    qed
  qed
  show "map_of (cache (searchResultsCache st')) k = map_of (cache (searchResultsCache st)) k"
    using cases g1 s1 by auto
  show "length (cache (searchResultsCache st')) \<le> Suc (length (cache (searchResultsCache st)))"
    using cases g2 s2 by auto
  show "ttlMs (searchResultsCache st') = ttlMs (searchResultsCache st)"
    using cases by auto
  show "maxSize (searchResultsCache st') = maxSize (searchResultsCache st)"
    using cases by auto
qed

lemma searchMany_sticky:
  assumes "map_of (cache (searchResultsCache st)) k = Some e"
    and "\<forall>(q, l, w) \<in> set cs. normalizeSearchKey q = k \<longrightarrow>
            at_get w - timestamp e \<le> ttlMs (searchResultsCache st)"
    and "length (cache (searchResultsCache st))
           + length (filter (\<lambda>c. normalizeSearchKey (fst c) \<noteq> k) cs)
         \<le> maxSize (searchResultsCache st)"
  shows "(\<forall>i < length cs. normalizeSearchKey (fst (cs ! i)) = k \<longrightarrow>
            fst (searchMany cs st) ! i = (Inr (data e), 0)) \<and>
         map_of (cache (searchResultsCache (snd (searchMany cs st)))) k = Some e"
  using assms
proof (induction cs arbitrary: st)
  case Nil
  then show ?case by simp
next
  case (Cons c cs)
  obtain q l w where c: "c = (q, l, w)" by (cases c) auto
  obtain res n st' where call: "searchPlants q l w st = (res, n, st')"
    by (cases "searchPlants q l w st") auto
  obtain rs st'' where rest: "searchMany cs st' = (rs, st'')"
    by (cases "searchMany cs st'") auto
  have many: "searchMany ((q, l, w) # cs) st = ((res, n) # rs, st'')"
    by (simp add: call rest)
  have inv: "map_of (cache (searchResultsCache st')) k = Some e \<and>
             ttlMs (searchResultsCache st') = ttlMs (searchResultsCache st) \<and>
             length (cache (searchResultsCache st'))
               + length (filter (\<lambda>c. normalizeSearchKey (fst c) \<noteq> k) cs)
             \<le> maxSize (searchResultsCache st') \<and>
             (normalizeSearchKey q = k \<longrightarrow> (res, n) = (Inr (data e), 0))"
  proof (cases "normalizeSearchKey q = k")
    case True
    have "at_get w - timestamp e \<le> ttlMs (searchResultsCache st)"
      using Cons.prems(2) c True by simp
    then have "searchPlants q l w st = (Inr (data e), 0, st)"
      using Cons.prems(1) True by (intro searchPlants_hit) simp_all
    then show ?thesis using call Cons.prems(1,3) True by (simp add: c)
  next
    case False
    have room: "length (cache (searchResultsCache st)) < maxSize (searchResultsCache st)"
      using Cons.prems(3) False by (simp add: c)
    from searchPlants_other [OF False room call] show ?thesis
      using Cons.prems(1,3) False by (simp add: c)
  qed
  have later: "\<forall>(q, l, w) \<in> set cs. normalizeSearchKey q = k \<longrightarrow>
            at_get w - timestamp e \<le> ttlMs (searchResultsCache st')"
    using Cons.prems(2) inv by auto
  from Cons.IH [of st'] inv later
  have ih: "(\<forall>i < length cs. normalizeSearchKey (fst (cs ! i)) = k \<longrightarrow>
            fst (searchMany cs st') ! i = (Inr (data e), 0)) \<and>
         map_of (cache (searchResultsCache (snd (searchMany cs st')))) k = Some e"
    by blast
  have "normalizeSearchKey (fst ((c # cs) ! i)) = k \<longrightarrow>
          fst (searchMany (c # cs) st) ! i = (Inr (data e), 0)" if "i < length (c # cs)" for i
  proof (cases i)
    case 0
    then show ?thesis using inv by (simp add: c many del: searchMany.simps)
  next
    case (Suc j)
    then show ?thesis using ih that by (simp add: c many rest del: searchMany.simps)
  qed
  then show ?case using ih by (simp add: c many rest del: searchMany.simps)
qed

definition demo_state :: "nat ClientState" where
  "demo_state = \<lparr>searchResultsCache = newTrefleCache ''TrefleSearchResults'' CACHE_TTL_MS 200,
     rateLimiter = newRateLimiter\<rparr>"

definition demo_world :: "int \<Rightarrow> nat SearchWorld" where
  "demo_world t = \<lparr>at_get = t, at_check = t,
     fetches = outcomes_at t [Response 200 (Some [1, 2, 3, 4, 5])], at_set = t\<rparr>"

definition demo_cached :: "nat list \<Rightarrow> nat ClientState" where
  "demo_cached res = \<lparr>searchResultsCache =
       \<lparr>cache = [(''rose'', \<lparr>data = res, timestamp = 0\<rparr>)], ttlMs = 300000, maxSize = 200,
          name = ''TrefleSearchResults''\<rparr>,
     rateLimiter = \<lparr>requestTimes = [0]\<rparr>\<rparr>"

text \<open>
  Two hundred searches for other queries, one a second from second 1 on, each answered with
  an empty list: the queries are the two-letter strings \<open>aa\<close>, \<open>ab\<close>, ...
\<close>

definition other_queries :: "string list" where
  "other_queries =
     take 200 (concat (map (\<lambda>a. map (\<lambda>b. [a, b]) ''abcdefghijklmno'') ''abcdefghijklmno''))"

definition empty_world :: "int \<Rightarrow> nat SearchWorld" where
  "empty_world t = \<lparr>at_get = t, at_check = t,
     fetches = outcomes_at t [Response 200 (Some [])], at_set = t\<rparr>"

definition other_calls :: "(string \<times> int \<times> nat SearchWorld) list" where
  "other_calls =
     map (\<lambda>(i, q). (q, 10, empty_world (1000 * (1 + int i)))) (enumerate 0 other_queries)"

text \<open>
  Claim C10 as stated fails. A search for \<open>rose\<close> with limit 2 caches two items at time 0.
  The two hundred searches for other queries fill the cache of capacity 200, and the last of
  them evicts the twenty oldest entries, the one of \<open>rose\<close> among them. A search for
  \<open>rose\<close> with limit 5 at second 201, well within the TTL of 300 seconds, then goes to the
  network and returns five items, not the two cached before.
\<close>

theorem search_not_sticky_after_eviction_counterexample:
  "searchPlants ''rose'' 2 (demo_world 0) demo_state = (Inr [1, 2], 1, demo_cached [1, 2]) \<and>
   length other_calls = 200 \<and>
   apsnd fst (searchPlants ''rose'' 5 (demo_world 201000)
                (snd (searchMany other_calls (demo_cached [1, 2]))))
     = (Inr [1, 2, 3, 4, 5], 1) \<and>
   at_get (demo_world 201000) - at_set (demo_world 0) \<le> ttlMs (searchResultsCache demo_state)"
  by code_simp

text \<open>
  Claim C10, amended. A call that went to the network (\<open>n1 > 0\<close>) and succeeded returns the
  response cut to its own limit and caches that list. In any run of later calls (for this
  query or for others) every call whose query has the same normalised form and whose lookup
  falls within the TTL of the entry returns the cached list whatever its limit, and makes no
  fetch, provided that the cache has room for the entries of the other queries: the entries
  held after the first call and the calls for other queries together do not exceed the
  capacity, so nothing is evicted. More generally, in every state in which the entry is still
  cached, such a call returns the cached list, makes no fetch and leaves the state as it is.
\<close>

theorem search_truncation_sticky:
  assumes first: "searchPlants q1 l1 w1 st = (Inr res1, n1, st1)" and net: "0 < n1"
    and later: "\<forall>(q, l, w) \<in> set cs. normalizeSearchKey q = normalizeSearchKey q1 \<longrightarrow>
            at_get w - at_set w1 \<le> ttlMs (searchResultsCache st)"
    and room: "length (cache (searchResultsCache st1))
           + length (filter (\<lambda>c. normalizeSearchKey (fst c) \<noteq> normalizeSearchKey q1) cs)
         \<le> maxSize (searchResultsCache st1)"
  shows "(\<exists>body. outcome (request (rateLimiter st) (at_check w1) (fetches w1)) = Inr body \<and>
            res1 = slice_to l1 body) \<and>
         (\<forall>i < length cs. normalizeSearchKey (fst (cs ! i)) = normalizeSearchKey q1 \<longrightarrow>
            fst (searchMany cs st1) ! i = (Inr res1, 0)) \<and>
         (\<forall>q l w st2.
            normalizeSearchKey q = normalizeSearchKey q1 \<and>
            map_of (cache (searchResultsCache st2)) (normalizeSearchKey q1)
              = Some \<lparr>data = res1, timestamp = at_set w1\<rparr> \<and>
            at_get w - at_set w1 \<le> ttlMs (searchResultsCache st2)
            \<longrightarrow> searchPlants q l w st2 = (Inr res1, 0, st2))"
proof -
  let ?e = "\<lparr>data = res1, timestamp = at_set w1\<rparr>"
  from searchPlants_miss_success [OF first net] obtain body where
    body: "outcome (request (rateLimiter st) (at_check w1) (fetches w1)) = Inr body"
      "res1 = slice_to l1 body"
    and e: "map_of (cache (searchResultsCache st1)) (normalizeSearchKey q1) = Some ?e"
    and ttl: "ttlMs (searchResultsCache st1) = ttlMs (searchResultsCache st)"
    by blast
  have later1: "\<forall>(q, l, w) \<in> set cs. normalizeSearchKey q = normalizeSearchKey q1 \<longrightarrow>
            at_get w - timestamp ?e \<le> ttlMs (searchResultsCache st1)"
    using later by (auto simp: ttl)
  from searchMany_sticky [OF e later1 room]
  have run: "\<forall>i < length cs. normalizeSearchKey (fst (cs ! i)) = normalizeSearchKey q1 \<longrightarrow>
            fst (searchMany cs st1) ! i = (Inr res1, 0)"
    by simp
  have hit: "searchPlants q l w st2 = (Inr res1, 0, st2)"
    if "normalizeSearchKey q = normalizeSearchKey q1"
      "map_of (cache (searchResultsCache st2)) (normalizeSearchKey q1) = Some ?e"
      "at_get w - at_set w1 \<le> ttlMs (searchResultsCache st2)" for q l w st2
    using searchPlants_hit [of st2 q ?e w l] that by simp
  show ?thesis using body run hit by blast
qed

definition mixed_calls :: "int \<Rightarrow> (string \<times> int \<times> nat SearchWorld) list" where
  "mixed_calls l = [(''tulip'', 10, empty_world 500), (''  ROSE '', l, demo_world 1000)]"

theorem search_truncation_sticky_witness:
  "searchPlants ''Rose'' 2 (demo_world 0) demo_state = (Inr [1, 2], 1, demo_cached [1, 2]) \<and>
   fst (searchMany (mixed_calls 5) (demo_cached [1, 2])) ! 1 = (Inr [1, 2], 0) \<and>
   searchPlants ''Rose'' 5 (demo_world 0) demo_state
     = (Inr [1, 2, 3, 4, 5], 1, demo_cached [1, 2, 3, 4, 5]) \<and>
   fst (searchMany (mixed_calls 2) (demo_cached [1, 2, 3, 4, 5])) ! 1 = (Inr [1, 2, 3, 4, 5], 0)"
proof -
  have a: "searchPlants ''Rose'' 2 (demo_world 0) demo_state = (Inr [1, 2], 1, demo_cached [1, 2])"
    by code_simp
  have b: "searchPlants ''Rose'' 5 (demo_world 0) demo_state
     = (Inr [1, 2, 3, 4, 5], 1, demo_cached [1, 2, 3, 4, 5])"
    by code_simp
  have key: "normalizeSearchKey ''  ROSE '' = normalizeSearchKey ''Rose''"
    "normalizeSearchKey ''tulip'' \<noteq> normalizeSearchKey ''Rose''"
    by code_simp+
  have ttl: "at_get (demo_world 1000) - at_set (demo_world 0) \<le> ttlMs (searchResultsCache demo_state)"
    by (simp add: demo_world_def demo_state_def newTrefleCache_def CACHE_TTL_MS_def)
  have pos: "0 < (1::nat)" by simp
  have later: "\<forall>(q, l, w) \<in> set (mixed_calls k).
       normalizeSearchKey q = normalizeSearchKey ''Rose'' \<longrightarrow>
       at_get w - at_set (demo_world 0) \<le> ttlMs (searchResultsCache demo_state)" for k
    using key ttl by (simp add: mixed_calls_def)
  have room: "length (cache (searchResultsCache (demo_cached res)))
           + length (filter (\<lambda>c. normalizeSearchKey (fst c) \<noteq> normalizeSearchKey ''Rose'')
                       (mixed_calls k))
         \<le> maxSize (searchResultsCache (demo_cached res))" for res k
    using key by (simp add: mixed_calls_def demo_cached_def)
  have second: "1 < length (mixed_calls k) \<and>
      normalizeSearchKey (fst (mixed_calls k ! 1)) = normalizeSearchKey ''Rose''" for k
    using key by (simp add: mixed_calls_def)
  have "fst (searchMany (mixed_calls 5) (demo_cached [1, 2])) ! 1 = (Inr [1, 2], 0)"
    using search_truncation_sticky [OF a pos later room, of 5] second [of 5] by blast
  moreover have "fst (searchMany (mixed_calls 2) (demo_cached [1, 2, 3, 4, 5])) ! 1
      = (Inr [1, 2, 3, 4, 5], 0)"
    using search_truncation_sticky [OF b pos later room, of 2] second [of 2] by blast
  ultimately show ?thesis using a b by blast
qed

section \<open>Mention extractor (extractors.ts)\<close>

subsection \<open>Vocabulary\<close>

text \<open>
  The three word lists of the source, in source order. \<^verbatim>\<open>COMMON_PLANT_NAMES\<close> and
  \<^verbatim>\<open>COMMON_ENGLISH_WORDS\<close> are \<^verbatim>\<open>Set\<close>s built from array literals without repeated
  elements, so their iteration order is the order below.
\<close>

definition COMMON_PLANT_NAMES :: "string list" where
  "COMMON_PLANT_NAMES =
    [
     ''tomato'', ''tomatoes'', ''potato'', ''potatoes'', ''carrot'', ''carrots'',
     ''lettuce'', ''spinach'', ''kale'', ''broccoli'', ''cauliflower'', ''cabbage'',
     ''celery'', ''cucumber'', ''cucumbers'', ''zucchini'', ''squash'', ''pumpkin'',
     ''pumpkins'', ''eggplant'', ''pepper'', ''peppers'', ''bell pepper'', ''chili'',
     ''chilies'', ''onion'', ''onions'', ''garlic'', ''leek'', ''leeks'', ''asparagus'',
     ''artichoke'', ''beet'', ''beets'', ''radish'', ''radishes'', ''turnip'', ''turnips'',
     ''parsnip'', ''parsnips'', ''corn'', ''peas'', ''green beans'', ''beans'',
     ''lentils'', ''chickpeas'', ''apple'', ''apples'', ''orange'', ''oranges'', ''lemon'',
     ''lemons'', ''lime'', ''limes'', ''grapefruit'', ''banana'', ''bananas'', ''grape'',
     ''grapes'', ''strawberry'', ''strawberries'', ''blueberry'', ''blueberries'',
     ''raspberry'', ''raspberries'', ''blackberry'', ''blackberries'', ''cherry'',
     ''cherries'', ''peach'', ''peaches'', ''plum'', ''plums'', ''apricot'', ''apricots'',
     ''mango'', ''mangoes'', ''pineapple'', ''pineapples'', ''watermelon'', ''cantaloupe'',
     ''honeydew'', ''melon'', ''kiwi'', ''papaya'', ''guava'', ''pomegranate'', ''fig'',
     ''figs'', ''date'', ''dates'', ''coconut'', ''coconuts'', ''avocado'', ''avocados'',
     ''basil'', ''oregano'', ''thyme'', ''rosemary'', ''sage'', ''mint'', ''peppermint'',
     ''spearmint'', ''parsley'', ''cilantro'', ''coriander'', ''dill'', ''chives'',
     ''tarragon'', ''marjoram'', ''bay leaf'', ''bay laurel'', ''lavender'', ''chamomile'',
     ''lemongrass'', ''fennel'', ''cumin'', ''turmeric'', ''ginger'', ''rose'', ''roses'',
     ''tulip'', ''tulips'', ''daisy'', ''daisies'', ''sunflower'', ''sunflowers'',
     ''lily'', ''lilies'', ''orchid'', ''orchids'', ''carnation'', ''carnations'',
     ''chrysanthemum'', ''dahlia'', ''dahlias'', ''peony'', ''peonies'', ''hydrangea'',
     ''hydrangeas'', ''marigold'', ''marigolds'', ''petunia'', ''petunias'', ''geranium'',
     ''geraniums'', ''begonia'', ''begonias'', ''zinnia'', ''zinnias'', ''pansy'',
     ''pansies'', ''violet'', ''violets'', ''iris'', ''irises'', ''daffodil'',
     ''daffodils'', ''hyacinth'', ''crocus'', ''amaryllis'', ''hibiscus'', ''jasmine'',
     ''gardenia'', ''magnolia'', ''camellia'', ''azalea'', ''rhododendron'', ''wisteria'',
     ''bougainvillea'', ''plumeria'', ''bird of paradise'', ''pothos'', ''philodendron'',
     ''monstera'', ''snake plant'', ''sansevieria'', ''spider plant'', ''peace lily'',
     ''rubber plant'', ''fiddle leaf fig'', ''ficus'', ''aloe'', ''aloe vera'',
     ''jade plant'', ''succulent'', ''succulents'', ''cactus'', ''cacti'', ''bamboo'',
     ''palm'', ''palms'', ''fern'', ''ferns'', ''boston fern'', ''maidenhair fern'',
     ''english ivy'', ''ivy'', ''dracaena'', ''zz plant'', ''chinese evergreen'',
     ''prayer plant'', ''calathea'', ''croton'', ''dieffenbachia'', ''anthurium'',
     ''bromeliad'', ''air plant'', ''tillandsia'', ''hoya'', ''string of pearls'',
     ''string of hearts'', ''oak'', ''maple'', ''pine'', ''spruce'', ''fir'', ''cedar'',
     ''birch'', ''ash'', ''elm'', ''willow'', ''poplar'', ''aspen'', ''beech'',
     ''hickory'', ''walnut'', ''chestnut'', ''cherry tree'', ''apple tree'',
     ''peach tree'', ''pear tree'', ''plum tree'', ''olive'', ''olive tree'',
     ''eucalyptus'', ''cypress'', ''redwood'', ''sequoia'', ''palm tree'',
     ''coconut palm'', ''magnolia tree'', ''dogwood'', ''redbud'', ''crepe myrtle'',
     ''japanese maple'', ''bonsai'', ''boxwood'', ''privet'', ''holly'', ''juniper'',
     ''yew'', ''forsythia'', ''lilac'', ''viburnum'', ''spirea'', ''barberry'',
     ''euonymus'', ''cotoneaster'', ''burning bush'', ''butterfly bush'', ''rose of sharon'']"

definition PLANT_CONTEXT_WORDS :: "string list" where
  "PLANT_CONTEXT_WORDS =
    [
     ''plant'', ''plants'', ''grow'', ''growing'', ''grew'', ''grown'', ''garden'',
     ''gardening'', ''water'', ''watering'', ''prune'', ''pruning'', ''fertilize'',
     ''fertilizing'', ''harvest'', ''harvesting'', ''seed'', ''seeds'', ''seedling'',
     ''seedlings'', ''cutting'', ''cuttings'', ''propagate'', ''propagating'', ''repot'',
     ''repotting'', ''transplant'', ''transplanting'', ''care'', ''caring'', ''leaf'',
     ''leaves'', ''flower'', ''flowers'', ''bloom'', ''blooming'', ''blossom'', ''fruit'',
     ''fruits'', ''vegetable'', ''vegetables'', ''herb'', ''herbs'', ''tree'', ''trees'',
     ''shrub'', ''shrubs'', ''vine'', ''vines'', ''bush'', ''bushes'', ''pot'', ''potted'',
     ''indoor'', ''outdoor'', ''houseplant'', ''houseplants'']"

definition COMMON_ENGLISH_WORDS :: "string list" where
  "COMMON_ENGLISH_WORDS =
    [
     ''the'', ''a'', ''an'', ''and'', ''or'', ''but'', ''if'', ''then'', ''else'',
     ''when'', ''where'', ''what'', ''which'', ''who'', ''how'', ''why'', ''is'', ''are'',
     ''was'', ''were'', ''be'', ''been'', ''being'', ''have'', ''has'', ''had'', ''do'',
     ''does'', ''did'', ''will'', ''would'', ''could'', ''should'', ''may'', ''might'',
     ''must'', ''can'', ''this'', ''that'', ''these'', ''those'', ''it'', ''its'',
     ''they'', ''them'', ''their'', ''we'', ''us'', ''our'', ''you'', ''your'', ''he'',
     ''him'', ''his'', ''she'', ''her'', ''i'', ''me'', ''my'', ''some'', ''any'', ''all'',
     ''most'', ''many'', ''much'', ''more'', ''less'', ''few'', ''little'', ''lot'',
     ''lots'', ''very'', ''too'', ''also'', ''just'', ''only'', ''even'', ''still'',
     ''already'', ''always'', ''never'', ''ever'', ''often'', ''sometimes'', ''usually'',
     ''really'', ''quite'', ''rather'', ''pretty'', ''about'', ''after'', ''before'',
     ''between'', ''during'', ''through'', ''from'', ''into'', ''onto'', ''with'',
     ''without'', ''for'', ''of'', ''in'', ''on'', ''at'', ''to'', ''by'', ''up'',
     ''down'', ''out'', ''off'', ''over'', ''under'', ''again'', ''back'', ''here'',
     ''there'', ''now'', ''today'', ''tomorrow'', ''yesterday'', ''thing'', ''things'',
     ''way'', ''ways'', ''time'', ''times'', ''day'', ''days'', ''year'', ''years'',
     ''week'', ''weeks'', ''month'', ''months'', ''something'', ''anything'',
     ''everything'', ''nothing'', ''someone'', ''anyone'', ''everyone'', ''nobody'',
     ''anybody'', ''everybody'', ''place'', ''room'', ''house'', ''home'', ''work'',
     ''life'', ''world'', ''people'', ''person'', ''child'', ''children'', ''man'',
     ''men'', ''woman'', ''women'', ''good'', ''bad'', ''new'', ''old'', ''big'',
     ''small'', ''long'', ''short'', ''high'', ''low'', ''great'', ''other'', ''same'',
     ''different'', ''first'', ''last'', ''next'', ''right'', ''left'', ''best'', ''want'',
     ''need'', ''know'', ''think'', ''see'', ''look'', ''find'', ''give'', ''take'',
     ''come'', ''go'', ''make'', ''get'', ''say'', ''tell'', ''ask'', ''use'', ''try'',
     ''help'', ''start'', ''stop'', ''keep'', ''let'', ''put'', ''set'', ''turn'',
     ''show'', ''hear'', ''leave'', ''call'', ''run'', ''move'', ''live'', ''believe'',
     ''feel'', ''bring'']"

subsection \<open>Regular expressions\<close>

text \<open>
  The fragment of JavaScript regular expressions that the module uses, with the backtracking
  order of the language: \<open>rx_match r s st\<close> lists, in the order in which the matcher tries
  them, the states in which \<open>r\<close> can end when started in \<open>st\<close>. A state is the position in
  the subject \<open>s\<close> and the extent of capture group 1, if it has matched. \<open>Rep\<close> repeats a
  character class between a minimum and a maximum number of times (no maximum: \<open>None\<close>),
  greedily or lazily; all quantified atoms of the module's patterns other than the optional
  groups are character classes, and an optional group \<^verbatim>\<open>(?:r)?\<close> is \<open>Alt r Eps\<close>.
\<close>

datatype rx =
    Chr "char \<Rightarrow> bool"
  | Eps
  | Seq rx rx
  | Alt rx rx
  | Rep bool nat "nat option" "char \<Rightarrow> bool"
  | Cap rx
  | Bol
  | Eol
  | WordB

type_synonym rstate = "nat \<times> (nat \<times> nat) option"

definition isWordChar :: "char \<Rightarrow> bool" where
  "isWordChar c =
     (let n = (of_char c :: int)
      in (48 \<le> n \<and> n \<le> 57) \<or> (65 \<le> n \<and> n \<le> 90) \<or> n = 95 \<or> (97 \<le> n \<and> n \<le> 122))"

fun rx_match :: "rx \<Rightarrow> string \<Rightarrow> rstate \<Rightarrow> rstate list" where
  "rx_match (Chr P) s (i, c) = (if i < length s \<and> P (s ! i) then [(Suc i, c)] else [])"
| "rx_match Eps s st = [st]"
| "rx_match (Seq a b) s st = concat (map (rx_match b s) (rx_match a s st))"
| "rx_match (Alt a b) s st = rx_match a s st @ rx_match b s st"
| "rx_match (Rep greedy lo hi P) s (i, c) =
     (let avail = length (takeWhile P (drop i s));
          top = (case hi of None \<Rightarrow> avail | Some h \<Rightarrow> min h avail);
          counts = [lo..<Suc top]
      in map (\<lambda>k. (i + k, c)) (if greedy then rev counts else counts))"
| "rx_match (Cap r) s (i, c) = map (\<lambda>(j, _). (j, Some (i, j))) (rx_match r s (i, c))"
| "rx_match Bol s (i, c) = (if i = 0 then [(i, c)] else [])"
| "rx_match Eol s (i, c) = (if i = length s then [(i, c)] else [])"
| "rx_match WordB s (i, c) =
     (let wordLeft = (0 < i \<and> i \<le> length s \<and> isWordChar (s ! (i - 1)));
          wordRight = (i < length s \<and> isWordChar (s ! i))
      in if wordLeft \<noteq> wordRight then [(i, c)] else [])"

text \<open>
  \<^verbatim>\<open>RegExp.prototype.exec\<close> from position \<open>start\<close>: the first position from which the
  pattern matches, with the end of the first match found there and its capture.
\<close>

fun first_match :: "rx \<Rightarrow> string \<Rightarrow> nat list \<Rightarrow> (nat \<times> nat \<times> (nat \<times> nat) option) option" where
  "first_match r s [] = None"
| "first_match r s (i # is) =
     (case rx_match r s (i, None) of
        [] \<Rightarrow> first_match r s is
      | (e, c) # _ \<Rightarrow> Some (i, e, c))"

definition rx_exec :: "rx \<Rightarrow> string \<Rightarrow> nat \<Rightarrow> (nat \<times> nat \<times> (nat \<times> nat) option) option" where
  "rx_exec r s start = first_match r s [start..<Suc (length s)]"

definition rx_test :: "rx \<Rightarrow> string \<Rightarrow> bool" where
  "rx_test r s = (rx_exec r s 0 \<noteq> None)"

definition substring :: "string \<Rightarrow> nat \<Rightarrow> nat \<Rightarrow> string" where
  "substring s i j = take (j - i) (drop i s)"

lemma first_match_start:
  "first_match r s is = Some (i, e, c) \<Longrightarrow> i \<in> set is"
  by (induction "is") (auto split: list.splits)

lemma rx_exec_bounds:
  assumes "rx_exec r s start = Some (i, e, c)"
  shows "start \<le> i \<and> i \<le> length s"
  using first_match_start [OF assms [unfolded rx_exec_def]] by auto

text \<open>
  The loop \<^verbatim>\<open>while ((match = pattern.exec(text)) !== null)\<close> of a pattern with the
  \<^verbatim>\<open>g\<close> flag: each \<^verbatim>\<open>exec\<close> starts at the end of the previous match. A match that
  ends where the search started would be found again for ever; the model answers \<open>None\<close>
  then.
\<close>

function exec_all :: "rx \<Rightarrow> string \<Rightarrow> nat \<Rightarrow> (nat \<times> nat \<times> (nat \<times> nat) option) list option" where
  "exec_all r s start =
     (case rx_exec r s start of
        None \<Rightarrow> Some []
      | Some (i, e, c) \<Rightarrow>
          if e \<le> start then None
          else map_option (Cons (i, e, c)) (exec_all r s e))"
  by pat_completeness auto
termination
proof (relation "measure (\<lambda>(r, s, start). Suc (length s) - start)")
  show "wf (measure (\<lambda>(r, s, start). Suc (length s) - start))" by simp
next
  fix r :: rx and s :: string and start x2 i y e c
  assume "rx_exec r s start = Some x2" "(i, y) = x2" "(e, c) = y" "\<not> e \<le> start"
  then have "rx_exec r s start = Some (i, e, c)" by simp
  from rx_exec_bounds [OF this] have "start \<le> length s" by simp
  with \<open>\<not> e \<le> start\<close>
  show "((r, s, e), (r, s, start)) \<in> measure (\<lambda>(r, s, start). Suc (length s) - start)"
    by simp
qed

declare exec_all.simps [simp del]

text \<open>Building patterns.\<close>

fun seqs :: "rx list \<Rightarrow> rx" where
  "seqs [] = Eps"
| "seqs [r] = r"
| "seqs (r # rs) = Seq r (seqs rs)"

fun alts :: "rx list \<Rightarrow> rx" where
  "alts [] = Eps"
| "alts [r] = r"
| "alts (r # rs) = Alt r (alts rs)"

definition lit :: "string \<Rightarrow> rx" where
  "lit w = seqs (map (\<lambda>x. Chr (\<lambda>c. c = x)) w)"

definition lit_i :: "string \<Rightarrow> rx" where
  "lit_i w = seqs (map (\<lambda>x. Chr (\<lambda>c. toLowerChar c = toLowerChar x)) w)"

definition opt :: "rx \<Rightarrow> rx" where
  "opt r = Alt r Eps"

definition lower_az :: "char \<Rightarrow> bool" where
  "lower_az c = (let n = (of_char c :: int) in 97 \<le> n \<and> n \<le> 122)"

definition upper_AZ :: "char \<Rightarrow> bool" where
  "upper_AZ c = (let n = (of_char c :: int) in 65 \<le> n \<and> n \<le> 90)"

definition letter :: "char \<Rightarrow> bool" where
  "letter c = (lower_az c \<or> upper_AZ c)"

definition letter_or_space :: "char \<Rightarrow> bool" where
  "letter_or_space c = (letter c \<or> isWhiteSpace c)"

definition dot :: "char \<Rightarrow> bool" where
  "dot c = ((of_char c :: int) \<noteq> 10 \<and> (of_char c :: int) \<noteq> 13)"

definition spaces :: rx where
  "spaces = Rep True 1 None isWhiteSpace"

definition terminator :: rx where
  "terminator = alts [Chr isWhiteSpace, Eol, lit '','', lit ''.'', lit ''?'', lit ''!'']"

subsection \<open>Mentions\<close>

datatype Confidence = High | Medium | Low

datatype MentionSource = ExactMatch | CommonName | Pattern | Context

record PlantMention =
  originalText :: string
  normalizedName :: string
  confidence :: Confidence
  source :: MentionSource

subsection \<open>Pattern pass\<close>

definition candidateClass :: "nat \<Rightarrow> rx" where
  "candidateClass hi = Cap (Seq (Chr letter) (Rep False 2 (Some hi) letter_or_space))"

definition PLANT_PATTERNS :: "rx list" where
  "PLANT_PATTERNS =
    [seqs [lit_i ''my'', spaces, candidateClass 25,
           opt (alts [Seq spaces (lit_i ''plant''), Seq spaces (lit_i ''tree''),
                      Seq spaces (lit_i ''bush''), Seq spaces (lit_i ''vine'')]),
           terminator],
     seqs [lit_i ''the'', spaces, candidateClass 25,
           alts [Seq spaces (lit_i ''plant''), Seq spaces (lit_i ''tree''),
                 Seq spaces (lit_i ''bush''), Seq spaces (lit_i ''vine''),
                 Seq spaces (lit_i ''is''), Seq spaces (lit_i ''needs''),
                 Seq spaces (lit_i ''has''), Seq spaces (lit_i ''looks'')]],
     seqs [candidateClass 20, spaces,
           alts [lit_i ''plant'', lit_i ''tree'', lit_i ''bush'', lit_i ''vine'',
                 lit_i ''shrub'', lit_i ''flower'', lit_i ''herb''],
           opt (lit_i ''s''), terminator],
     seqs [alts [lit_i ''grow'', lit_i ''plant'', seqs [lit_i ''care'', spaces, lit_i ''for''],
                 lit_i ''water'', lit_i ''fertilize'', lit_i ''prune'', lit_i ''harvest'',
                 lit_i ''propagate''],
           spaces,
           opt (alts [Seq (lit_i ''the'') spaces, Seq (lit_i ''my'') spaces,
                      Seq (lit_i ''some'') spaces]),
           candidateClass 25, terminator],
     seqs [alts [lit_i ''about'', lit_i ''regarding''], spaces,
           opt (alts [Seq (lit_i ''the'') spaces, Seq (lit_i ''my'') spaces]),
           candidateClass 25,
           opt (alts [Seq spaces (lit_i ''plant''), Seq spaces (lit_i ''tree''),
                      Seq spaces (lit_i ''bush'')]),
           terminator],
     seqs [Cap (seqs [Chr upper_AZ, Rep True 1 None lower_az, spaces, Rep True 1 None lower_az]),
           terminator]]"

definition isCommonWord :: "string \<Rightarrow> bool" where
  "isCommonWord w = (toLowerCase w \<in> set COMMON_ENGLISH_WORDS)"

text \<open>
  \<^verbatim>\<open>escapeRegex\<close> puts a backslash before every character that is special in a pattern,
  so the pattern compiled from its result matches the characters of the string one by one:
  \<open>lit_i w\<close> under the \<^verbatim>\<open>i\<close> flag.
\<close>

definition binomialPattern :: rx where
  "binomialPattern =
     seqs [Bol, Chr upper_AZ, Rep True 1 None lower_az, spaces, Rep True 1 None lower_az, Eol]"

definition contextPattern :: "string \<Rightarrow> rx" where
  "contextPattern candidate =
     Alt (seqs [alts (map lit_i PLANT_CONTEXT_WORDS), spaces, Rep True 0 (Some 30) dot,
                lit_i candidate])
         (seqs [lit_i candidate, spaces, Rep True 0 (Some 30) dot,
                alts (map lit_i PLANT_CONTEXT_WORDS)])"

definition assessPlantNameConfidence :: "string \<Rightarrow> string \<Rightarrow> Confidence" where
  "assessPlantNameConfidence candidate fullText =
     (let normalized = toLowerCase candidate
      in if normalized \<in> set COMMON_PLANT_NAMES then High
         else if rx_test binomialPattern candidate then High
         else if rx_test (contextPattern candidate) fullText then Medium
         else Low)"

text \<open>
  One round of the \<^verbatim>\<open>while\<close> loop of \<^verbatim>\<open>findPatternMatches\<close>, on the match
  \<open>(start, stop, capture)\<close>; the state is the list of mentions and the candidates seen.
\<close>

definition patternStep :: "string \<Rightarrow> PlantMention list \<times> string list
    \<Rightarrow> nat \<times> nat \<times> (nat \<times> nat) option \<Rightarrow> PlantMention list \<times> string list" where
  "patternStep text acc m =
     (case acc of (matches, processedCandidates) \<Rightarrow>
      (case snd (snd m) of
         None \<Rightarrow> acc
       | Some (a, b) \<Rightarrow>
           (let candidate = trim (substring text a b)
            in if candidate = [] \<or> length candidate < 3 \<or> length candidate > 30 then acc
               else
                 (let normalized = toLowerCase candidate
                  in if normalized \<in> set processedCandidates then acc
                     else
                       (let seen = processedCandidates @ [normalized]
                        in if isCommonWord normalized then (matches, seen)
                           else
                             (let conf = assessPlantNameConfidence normalized text
                              in if conf \<noteq> Low \<or> normalized \<in> set COMMON_PLANT_NAMES
                                 then (matches @ [\<lparr>originalText = candidate,
                                         normalizedName = normalized, confidence = conf,
                                         source = Pattern\<rparr>], seen)
                                 else (matches, seen)))))))"

definition findPatternMatches :: "string \<Rightarrow> PlantMention list option" where
  "findPatternMatches text =
     (case those (map (\<lambda>p. exec_all p text 0) PLANT_PATTERNS) of
        None \<Rightarrow> None
      | Some found \<Rightarrow> Some (fst (foldl (patternStep text) ([], []) (concat found))))"

subsection \<open>Exact-vocabulary pass\<close>

definition wordPattern :: "string \<Rightarrow> rx" where
  "wordPattern w = seqs [WordB, lit_i w, WordB]"

definition sortedNames :: "string list" where
  "sortedNames = sort_key (\<lambda>w. - int (length w)) COMMON_PLANT_NAMES"

definition findExactMatches :: "string \<Rightarrow> PlantMention list" where
  "findExactMatches text =
     (let wordsLower = toLowerCase text
      in List.map_filter
           (\<lambda>w. case rx_exec (wordPattern w) wordsLower 0 of
                   None \<Rightarrow> None
                 | Some (i, e, c) \<Rightarrow>
                     Some \<lparr>originalText = substring wordsLower i e,
                            normalizedName = toLowerCase w, confidence = High,
                            source = CommonName\<rparr>)
           sortedNames)"

subsection \<open>Registry pass\<close>

definition str_includes :: "string \<Rightarrow> string \<Rightarrow> bool" where
  "str_includes s w = sublist w s"

definition registryMatchesOf :: "string \<Rightarrow> ProcessedPlantData \<Rightarrow> PlantMention list" where
  "registryMatchesOf normalizedText plant =
     (case commonName plant of
        None \<Rightarrow> []
      | Some cn \<Rightarrow>
          if cn \<noteq> [] \<and> str_includes normalizedText (toLowerCase cn)
          then [\<lparr>originalText = cn, normalizedName = toLowerCase cn, confidence = High,
                  source = ExactMatch\<rparr>]
          else [])
     @ (if str_includes normalizedText (toLowerCase (scientificName plant))
        then [\<lparr>originalText = scientificName plant,
                normalizedName = toLowerCase (scientificName plant), confidence = High,
                source = ExactMatch\<rparr>]
        else [])
     @ (let g = toLowerCase (genus plant)
        in if str_includes normalizedText g \<and> length g > 3
           then [\<lparr>originalText = genus plant, normalizedName = g, confidence = Medium,
                   source = ExactMatch\<rparr>]
           else [])"

definition findRegistryMatches :: "ConversationPlantRegistry \<Rightarrow> string \<Rightarrow> PlantMention list" where
  "findRegistryMatches reg text =
     concat (map (registryMatchesOf (toLowerCase text)) (getAllPlants reg))"

subsection \<open>Merging the passes\<close>

definition pushUnique :: "PlantMention list \<times> string list \<Rightarrow> PlantMention
    \<Rightarrow> PlantMention list \<times> string list" where
  "pushUnique acc m =
     (case acc of (mentions, foundNames) \<Rightarrow>
        if normalizedName m \<notin> set foundNames
        then (mentions @ [m], foundNames @ [normalizedName m])
        else acc)"

definition confidenceOrder :: "Confidence \<Rightarrow> nat" where
  "confidenceOrder c = (case c of High \<Rightarrow> 0 | Medium \<Rightarrow> 1 | Low \<Rightarrow> 2)"

definition extractPlantMentions :: "ConversationPlantRegistry \<Rightarrow> string
    \<Rightarrow> PlantMention list option" where
  "extractPlantMentions reg text =
     (let acc1 = foldl pushUnique ([], []) (findRegistryMatches reg text);
          acc2 = foldl pushUnique acc1 (findExactMatches text)
      in case findPatternMatches text of
           None \<Rightarrow> None
         | Some patternMatches \<Rightarrow>
             (let acc3 = foldl pushUnique acc2 patternMatches
              in Some (sort_key (\<lambda>m. confidenceOrder (confidence m)) (fst acc3))))"

subsection \<open>Every pattern of the pattern pass consumes input\<close>

fun minlen :: "rx \<Rightarrow> nat" where
  "minlen (Chr P) = 1"
| "minlen Eps = 0"
| "minlen (Seq a b) = minlen a + minlen b"
| "minlen (Alt a b) = min (minlen a) (minlen b)"
| "minlen (Rep greedy lo hi P) = lo"
| "minlen (Cap r) = minlen r"
| "minlen Bol = 0"
| "minlen Eol = 0"
| "minlen WordB = 0"

lemma rx_match_advances:
  "(j, c') \<in> set (rx_match r s (i, c)) \<Longrightarrow> i + minlen r \<le> j"
proof (induction r arbitrary: i c j c')
  case (Seq a b)
  then obtain k d where "(k, d) \<in> set (rx_match a s (i, c))" "(j, c') \<in> set (rx_match b s (k, d))"
    by auto
  with Seq.IH show ?case by fastforce
next
  case (Alt a b)
  then show ?case by fastforce
next
  case (Rep greedy lo hi P)
  then show ?case by (auto simp: Let_def split: if_splits)
next
  case (Cap r)
  then show ?case by fastforce
qed (auto simp: Let_def split: if_splits)

lemma first_match_hd:
  "first_match r s is = Some (i, e, c) \<Longrightarrow> (e, c) \<in> set (rx_match r s (i, None))"
  by (induction "is") (auto split: list.splits)

lemma exec_all_total:
  assumes "0 < minlen r"
  shows "\<exists>ms. exec_all r s start = Some ms"
  using assms
proof (induction r s start rule: exec_all.induct)
  case (1 r s start)
  show ?case
  proof (cases "rx_exec r s start")
    case None
    then show ?thesis by (subst exec_all.simps) simp
  next
    case (Some m)
    obtain i e c where m: "m = (i, e, c)" by (cases m) auto
    have "(e, c) \<in> set (rx_match r s (i, None))"
      using Some m by (simp add: rx_exec_def first_match_hd)
    from rx_match_advances [OF this] have "i < e" using "1.prems" by linarith
    moreover have "start \<le> i" using rx_exec_bounds Some m by blast
    ultimately have adv: "\<not> e \<le> start" by simp
    from "1.IH" [OF Some m [symmetric] refl adv "1.prems"]
    obtain ms where "exec_all r s e = Some ms" by blast
    then show ?thesis using Some m adv by (subst exec_all.simps) simp
  qed
qed

lemma PLANT_PATTERNS_consume: "\<forall>r \<in> set PLANT_PATTERNS. 0 < minlen r"
  by (simp add: PLANT_PATTERNS_def candidateClass_def lit_i_def lit_def spaces_def terminator_def
      opt_def)

lemma those_Some:
  "(\<forall>x \<in> set xs. \<exists>y. x = Some y) \<Longrightarrow> \<exists>ys. those xs = Some ys"
  by (induction xs) auto

lemma findPatternMatches_total: "\<exists>ms. findPatternMatches text = Some ms"
proof -
  have "\<forall>x \<in> set (map (\<lambda>p. exec_all p text 0) PLANT_PATTERNS). \<exists>y. x = Some y"
    using PLANT_PATTERNS_consume exec_all_total by auto
  from those_Some [OF this] show ?thesis
    by (auto simp: findPatternMatches_def)
qed


subsection \<open>Merging keeps the first mention of every name\<close>

lemma foldl_pushUnique:
  assumes "distinct (map normalizedName ms)"
  shows "\<exists>new. foldl pushUnique (ms, map normalizedName ms) xs
                 = (ms @ new, map normalizedName (ms @ new)) \<and>
               set new \<subseteq> set xs \<and>
               distinct (map normalizedName (ms @ new)) \<and>
               normalizedName ` set (ms @ new) = normalizedName ` (set ms \<union> set xs)"
  using assms
proof (induction xs arbitrary: ms)
  case Nil
  then show ?case by (intro exI [of _ "[]"]) simp
next
  case (Cons x xs)
  show ?case
  proof (cases "normalizedName x \<in> set (map normalizedName ms)")
    case True
    then have step: "pushUnique (ms, map normalizedName ms) x = (ms, map normalizedName ms)"
      by (simp add: pushUnique_def)
    from Cons.IH [OF Cons.prems] obtain new where
      new: "foldl pushUnique (ms, map normalizedName ms) xs
              = (ms @ new, map normalizedName (ms @ new))"
        "set new \<subseteq> set xs" "distinct (map normalizedName (ms @ new))"
        "normalizedName ` set (ms @ new) = normalizedName ` (set ms \<union> set xs)"
      by blast
    have "normalizedName ` set (ms @ new) = normalizedName ` (set ms \<union> set (x # xs))"
      using new(4) True by auto
    then show ?thesis
      using new(1,2,3) step by (intro exI [of _ new]) auto
  next
    case False
    then have step: "pushUnique (ms, map normalizedName ms) x
                       = (ms @ [x], map normalizedName (ms @ [x]))"
      by (simp add: pushUnique_def)
    have d: "distinct (map normalizedName (ms @ [x]))"
      using Cons.prems False by simp
    from Cons.IH [OF d] obtain new where
      new: "foldl pushUnique (ms @ [x], map normalizedName (ms @ [x])) xs
              = ((ms @ [x]) @ new, map normalizedName ((ms @ [x]) @ new))"
        "set new \<subseteq> set xs" "distinct (map normalizedName ((ms @ [x]) @ new))"
        "normalizedName ` set ((ms @ [x]) @ new) = normalizedName ` (set (ms @ [x]) \<union> set xs)"
      by blast
    have "normalizedName ` set (ms @ x # new) = normalizedName ` (set ms \<union> set (x # xs))"
      using new(4) by auto
    then show ?thesis
      using new(1,2,3) step by (intro exI [of _ "x # new"]) auto
  qed
qed

text \<open>The three merging loops together, before the sort.\<close>

definition merged :: "PlantMention list \<Rightarrow> PlantMention list \<Rightarrow> PlantMention list
    \<Rightarrow> PlantMention list" where
  "merged rs es ps =
     fst (foldl pushUnique (foldl pushUnique (foldl pushUnique ([], []) rs) es) ps)"

lemma merged_parts:
  "\<exists>r1 e1 p1. merged rs es ps = r1 @ e1 @ p1 \<and>
     set r1 \<subseteq> set rs \<and> set e1 \<subseteq> set es \<and> set p1 \<subseteq> set ps \<and>
     distinct (map normalizedName (r1 @ e1 @ p1)) \<and>
     normalizedName ` set r1 = normalizedName ` set rs \<and>
     normalizedName ` set (r1 @ e1) = normalizedName ` (set rs \<union> set es)"
proof -
  have d0: "distinct (map normalizedName ([] :: PlantMention list))" by simp
  from foldl_pushUnique [OF d0, of rs] obtain r1 where
    r1: "foldl pushUnique ([], []) rs = (r1, map normalizedName r1)" "set r1 \<subseteq> set rs"
      "distinct (map normalizedName r1)" "normalizedName ` set r1 = normalizedName ` set rs"
    by auto
  from foldl_pushUnique [OF r1(3), of es] obtain e1 where
    e1: "foldl pushUnique (r1, map normalizedName r1) es
           = (r1 @ e1, map normalizedName (r1 @ e1))" "set e1 \<subseteq> set es"
      "distinct (map normalizedName (r1 @ e1))"
      "normalizedName ` set (r1 @ e1) = normalizedName ` (set r1 \<union> set es)"
    by auto
  from foldl_pushUnique [OF e1(3), of ps] obtain p1 where
    p1: "foldl pushUnique (r1 @ e1, map normalizedName (r1 @ e1)) ps
           = ((r1 @ e1) @ p1, map normalizedName ((r1 @ e1) @ p1))" "set p1 \<subseteq> set ps"
      "distinct (map normalizedName ((r1 @ e1) @ p1))"
    by auto
  have m: "merged rs es ps = r1 @ e1 @ p1"
    unfolding merged_def r1(1) e1(1) p1(1) by simp
  have n: "normalizedName ` set (r1 @ e1) = normalizedName ` (set rs \<union> set es)"
    using e1(4) r1(4) by (simp add: image_Un)
  show ?thesis
    using m r1(2,4) e1(2) p1(2,3) n by (intro exI [of _ r1] exI [of _ e1] exI [of _ p1]) simp
qed

lemma find_append_first:
  "List.find P (xs @ ys) = (case List.find P xs of None \<Rightarrow> List.find P ys | Some x \<Rightarrow> Some x)"
  by (induction xs) simp_all

lemma filter_unique:
  assumes "distinct (map f xs)" and "x \<in> set xs"
  shows "filter (\<lambda>y. f y = f x) xs = [x]"
  using assms
proof (induction xs)
  case Nil
  then show ?case by simp
next
  case (Cons a xs)
  show ?case
  proof (cases "a = x")
    case True
    have "\<forall>y \<in> set xs. f y \<noteq> f x" using Cons.prems(1) True by (auto simp: image_iff)
    then have "filter (\<lambda>y. f y = f x) xs = []" by (simp add: filter_empty_conv)
    then show ?thesis using True by simp
  next
    case False
    then have "x \<in> set xs" using Cons.prems(2) by simp
    moreover have "f a \<noteq> f x" using Cons.prems(1) calculation by (auto simp: image_iff)
    ultimately show ?thesis using Cons by simp
  qed
qed

lemma foldl_pushUnique_find:
  "List.find (\<lambda>m. normalizedName m = w) (fst (foldl pushUnique (ms, map normalizedName ms) xs))
     = List.find (\<lambda>m. normalizedName m = w) (ms @ xs)"
proof (induction xs arbitrary: ms)
  case Nil
  then show ?case by simp
next
  case (Cons x xs)
  show ?case
  proof (cases "normalizedName x \<in> set (map normalizedName ms)")
    case True
    then have step: "pushUnique (ms, map normalizedName ms) x = (ms, map normalizedName ms)"
      by (simp add: pushUnique_def)
    have "List.find (\<lambda>m. normalizedName m = w) (ms @ x # xs)
            = List.find (\<lambda>m. normalizedName m = w) (ms @ xs)"
    proof (cases "normalizedName x = w")
      case w: True
      then obtain y where "y \<in> set ms" "normalizedName y = w" using True by auto
      then have "List.find (\<lambda>m. normalizedName m = w) ms \<noteq> None"
        by (auto simp: find_None_iff)
      then show ?thesis by (auto simp: find_append_first)
    next
      case False
      then show ?thesis by (simp add: find_append_first split: option.splits)
    qed
    then show ?thesis using Cons.IH [of ms] step by simp
  next
    case False
    then have step: "pushUnique (ms, map normalizedName ms) x
                       = (ms @ [x], map normalizedName (ms @ [x]))"
      by (simp add: pushUnique_def)
    show ?thesis using Cons.IH [of "ms @ [x]"] step by simp
  qed
qed

lemma merged_find:
  "List.find (\<lambda>m. normalizedName m = w) (merged rs es ps)
     = List.find (\<lambda>m. normalizedName m = w) (rs @ es @ ps)"
proof -
  have "merged rs es ps = fst (foldl pushUnique ([], map normalizedName []) (rs @ es @ ps))"
    by (simp add: merged_def)
  then show ?thesis
    using foldl_pushUnique_find [of w "[]" "rs @ es @ ps"] by simp
qed

lemma extractPlantMentions_merged:
  "findPatternMatches text = Some ps \<Longrightarrow>
   extractPlantMentions reg text
     = Some (sort_key (\<lambda>m. confidenceOrder (confidence m))
              (merged (findRegistryMatches reg text) (findExactMatches text) ps))"
  by (simp add: extractPlantMentions_def merged_def Let_def)

lemma sorted_rank_blocks:
  fixes f :: "'a \<Rightarrow> nat"
  assumes "sorted (map f xs)"
  shows "xs = filter (\<lambda>x. f x = 0) xs @ filter (\<lambda>x. f x = 1) xs @
              filter (\<lambda>x. f x \<noteq> 0 \<and> f x \<noteq> 1) xs"
  using assms
proof (induction xs)
  case Nil
  then show ?case by simp
next
  case (Cons x xs)
  have le: "\<forall>y \<in> set xs. f x \<le> f y" and s: "sorted (map f xs)"
    using Cons.prems by auto
  note IH = Cons.IH [OF s]
  consider "f x = 0" | "f x = 1" | "f x \<noteq> 0" "f x \<noteq> 1" by blast
  then show ?case
  proof cases
    case 1
    then show ?thesis using IH by simp
  next
    case 2
    then have "filter (\<lambda>x. f x = 0) xs = []"
      using le by (auto simp: filter_empty_conv)
    then show ?thesis using 2 IH by simp
  next
    case 3
    then have "filter (\<lambda>x. f x = 0) xs = []" "filter (\<lambda>x. f x = 1) xs = []"
      using le by (auto simp: filter_empty_conv)
    then show ?thesis using 3 IH by simp
  qed
qed

lemma confidenceOrder_cases:
  "(confidenceOrder c = 0) = (c = High)" "(confidenceOrder c = 1) = (c = Medium)"
  "(confidenceOrder c \<noteq> 0 \<and> confidenceOrder c \<noteq> 1) = (c = Low)"
  by (cases c; simp add: confidenceOrder_def)+

lemma Confidence_low: "(c \<noteq> High \<and> c \<noteq> Medium) = (c = Low)"
  by (cases c) simp_all

text \<open>
  Claim C4. For every registry content and every text the extraction returns a list in which
  no normalised name occurs twice and which consists of its high-confidence mentions, followed
  by its medium-confidence mentions, followed by its low-confidence mentions.
\<close>

theorem mentions_unique_and_ranked:
  "\<exists>ms. extractPlantMentions reg text = Some ms \<and>
        distinct (map normalizedName ms) \<and>
        ms = filter (\<lambda>m. confidence m = High) ms @ filter (\<lambda>m. confidence m = Medium) ms @
             filter (\<lambda>m. confidence m = Low) ms"
proof -
  obtain ps where ps: "findPatternMatches text = Some ps"
    using findPatternMatches_total by blast
  let ?xs = "merged (findRegistryMatches reg text) (findExactMatches text) ps"
  let ?ms = "sort_key (\<lambda>m. confidenceOrder (confidence m)) ?xs"
  have "distinct (map normalizedName ?xs)"
    using merged_parts [of "findRegistryMatches reg text" "findExactMatches text" ps] by auto
  moreover have "mset (map normalizedName ?ms) = mset (map normalizedName ?xs)"
    by simp
  ultimately have "distinct (map normalizedName ?ms)"
    by (metis mset_eq_imp_distinct_iff)
  moreover have "sorted (map (\<lambda>m. confidenceOrder (confidence m)) ?ms)"
    by (rule sorted_sort_key)
  from sorted_rank_blocks [OF this]
  have "?ms = filter (\<lambda>m. confidence m = High) ?ms @ filter (\<lambda>m. confidence m = Medium) ?ms @
             filter (\<lambda>m. confidence m = Low) ?ms"
    by (simp only: confidenceOrder_cases Confidence_low)
  ultimately show ?thesis
    using extractPlantMentions_merged [OF ps] by blast
qed

text \<open>
  The extraction evaluated on a text for which each pass contributes a mention: with a plant
  of genus \<open>Ficus\<close> registered, the registry pass reports \<open>ficus\<close> (medium), then the
  vocabulary pass reports \<open>fig\<close> (high), then the pattern pass reports \<open>my fig\<close> (medium).
\<close>

definition fig_mentions :: "PlantMention list" where
  "fig_mentions =
     [\<lparr>originalText = ''fig'', normalizedName = ''fig'', confidence = High,
        source = CommonName\<rparr>,
      \<lparr>originalText = ''Ficus'', normalizedName = ''ficus'', confidence = Medium,
        source = ExactMatch\<rparr>,
      \<lparr>originalText = ''My Fig'', normalizedName = ''my fig'', confidence = Medium,
        source = Pattern\<rparr>]"

lemma fig_bush_evaluated:
  "extractPlantMentions (registerProcessed ficus newRegistry) ''ficus, My Fig bush''
     = Some fig_mentions"
  by code_simp

text \<open>
  The order on that input: the registry pass produces the medium mention of \<open>ficus\<close>
  (twice, the profile being registered under its slug and under its common name) before the
  vocabulary pass produces the high mention of \<open>fig\<close>; the result has \<open>ficus\<close> once and
  lists \<open>fig\<close> first.
\<close>

theorem mentions_unique_and_ranked_witness:
  "findRegistryMatches (registerProcessed ficus newRegistry) ''ficus, My Fig bush'' =
     [\<lparr>originalText = ''Ficus'', normalizedName = ''ficus'', confidence = Medium,
        source = ExactMatch\<rparr>,
      \<lparr>originalText = ''Ficus'', normalizedName = ''ficus'', confidence = Medium,
        source = ExactMatch\<rparr>] \<and>
   extractPlantMentions (registerProcessed ficus newRegistry) ''ficus, My Fig bush''
     = Some fig_mentions \<and>
   map confidence fig_mentions = [High, Medium, Medium] \<and>
   distinct (map normalizedName fig_mentions)"
proof -
  have reg: "findRegistryMatches (registerProcessed ficus newRegistry) ''ficus, My Fig bush'' =
     [\<lparr>originalText = ''Ficus'', normalizedName = ''ficus'', confidence = Medium,
        source = ExactMatch\<rparr>,
      \<lparr>originalText = ''Ficus'', normalizedName = ''ficus'', confidence = Medium,
        source = ExactMatch\<rparr>]"
    by code_simp
  have conf: "map confidence fig_mentions = [High, Medium, Medium]"
    by (simp add: fig_mentions_def)
  from mentions_unique_and_ranked [of "registerProcessed ficus newRegistry"
      "''ficus, My Fig bush''"]
  obtain ms where ms: "extractPlantMentions (registerProcessed ficus newRegistry)
        ''ficus, My Fig bush'' = Some ms"
    and d: "distinct (map normalizedName ms)"
    by (elim exE conjE)
  have "ms = fig_mentions" using ms fig_bush_evaluated by simp
  then have "distinct (map normalizedName fig_mentions)" using d by simp
  then show ?thesis
    using reg conf fig_bush_evaluated by simp
qed

subsection \<open>Whole-word search\<close>

lemma rx_match_seqs_Cons:
  "rx_match (seqs (r # rs)) s st = concat (map (rx_match (seqs rs) s) (rx_match r s st))"
proof (cases rs)
  case Nil
  have "rx_match Eps s = (\<lambda>st. [st])" by (rule ext) simp
  then show ?thesis using Nil by simp
next
  case (Cons r' rs')
  then show ?thesis by simp
qed

lemma rx_match_seqs_Nil: "rx_match (seqs []) s st = [st]"
  by simp

lemma rx_match_lit_i:
  "rx_match (lit_i w) (pre @ w @ post) (length pre, c) = [(length pre + length w, c)]"
proof (induction w arbitrary: pre)
  case Nil
  then show ?case by (simp add: lit_i_def)
next
  case (Cons x w)
  have "rx_match (lit_i w) ((pre @ [x]) @ w @ post) (length (pre @ [x]), c)
          = [(length (pre @ [x]) + length w, c)]"
    by (rule Cons.IH)
  then have ih: "rx_match (lit_i w) (pre @ x # w @ post) (Suc (length pre), c)
          = [(Suc (length pre + length w), c)]"
    by simp
  have "lit_i (x # w) = seqs (Chr (\<lambda>c. toLowerChar c = toLowerChar x) # map (\<lambda>x. Chr (\<lambda>c. toLowerChar c = toLowerChar x)) w)"
    by (simp add: lit_i_def)
  then show ?case
    using ih by (simp add: rx_match_seqs_Cons lit_i_def [symmetric] del: seqs.simps)
qed

text \<open>
  \<open>standaloneWord w s\<close>: the string \<open>s\<close> has an occurrence of \<open>w\<close> that is neither preceded
  nor followed by a word character (a letter, a digit or the underscore).
\<close>

definition standaloneWord :: "string \<Rightarrow> string \<Rightarrow> bool" where
  "standaloneWord w s =
     (\<exists>i \<in> {0..length s}.
        i + length w \<le> length s \<and> substring s i (i + length w) = w \<and>
        \<not> (0 < i \<and> isWordChar (s ! (i - 1))) \<and>
        \<not> (i + length w < length s \<and> isWordChar (s ! (i + length w))))"

lemma substring_decompose:
  assumes "i + length w \<le> length s" and "substring s i (i + length w) = w"
  shows "s = take i s @ w @ drop (i + length w) s" and "length (take i s) = i"
proof -
  have "take (length w) (drop i s) = w"
    using assms(2) by (simp add: substring_def)
  then have "drop i s = w @ drop (length w) (drop i s)"
    by (metis append_take_drop_id)
  then have "s = take i s @ w @ drop (i + length w) s"
    by (metis add.commute append_take_drop_id drop_drop)
  then show "s = take i s @ w @ drop (i + length w) s" .
  show "length (take i s) = i" using assms(1) by simp
qed

lemma first_match_Some:
  "i \<in> set is \<Longrightarrow> rx_match r s (i, None) \<noteq> [] \<Longrightarrow> \<exists>m. first_match r s is = Some m"
  by (induction "is") (auto split: list.splits)

lemma wordPattern_found:
  assumes w: "w \<noteq> []" "isWordChar (hd w)" "isWordChar (last w)"
    and occ: "standaloneWord w s"
  shows "\<exists>m. rx_exec (wordPattern w) s 0 = Some m"
proof -
  from occ obtain i where i0: "i \<in> {0..length s}" and i: "i + length w \<le> length s"
      "substring s i (i + length w) = w"
      "\<not> (0 < i \<and> isWordChar (s ! (i - 1)))"
      "\<not> (i + length w < length s \<and> isWordChar (s ! (i + length w)))"
    unfolding standaloneWord_def by blast
  define pre where "pre = take i s"
  define post where "post = drop (i + length w) s"
  have s: "s = pre @ w @ post" and lp: "length pre = i"
    using substring_decompose [OF i(1,2)] by (simp_all add: pre_def post_def)
  have first: "s ! i = hd w"
    using w(1) by (simp add: s lp [symmetric] nth_append hd_conv_nth)
  have lw: "0 < length w" using w(1) by simp
  have "(pre @ w @ post) ! (length pre + (length w - 1)) = w ! (length w - 1)"
    using lw by (simp add: nth_append)
  then have lst: "s ! (i + length w - 1) = last w"
    using w(1) lw by (simp add: s lp [symmetric] last_conv_nth)
  have il: "i < length s" "0 < i + length w" using i(1) lw by linarith+
  have b1: "rx_match WordB s (i, None) = [(i, None)]"
    using il i(3) w(2) first by (auto simp: Let_def)
  have b2: "rx_match (lit_i w) s (i, None) = [(i + length w, None)]"
    using rx_match_lit_i [of w pre post None] by (simp add: s lp)
  have b3: "rx_match WordB s (i + length w, None) = [(i + length w, None)]"
    using il i(1,4) w(3) lst by (auto simp: Let_def)
  have "rx_match (wordPattern w) s (i, None) = [(i + length w, None)]"
    by (simp add: wordPattern_def rx_match_seqs_Cons rx_match_seqs_Nil b1 b2 b3 del: seqs.simps rx_match.simps)
  then have ne: "rx_match (wordPattern w) s (i, None) \<noteq> []" by simp
  have mem: "i \<in> set [0..<Suc (length s)]" using il by simp
  show ?thesis
    unfolding rx_exec_def by (rule first_match_Some [OF mem ne])
qed


lemma vocabulary_shape:
  "list_all (\<lambda>w. w \<noteq> [] \<and> isWordChar (hd w) \<and> isWordChar (last w) \<and> toLowerCase w = w)
     COMMON_PLANT_NAMES"
  by code_simp

lemma set_map_filter_iff:
  "y \<in> set (List.map_filter f xs) \<longleftrightarrow> (\<exists>x \<in> set xs. f x = Some y)"
  by (induction xs) (auto split: option.splits)

lemma findExactMatches_all_high:
  "m \<in> set (findExactMatches text) \<Longrightarrow> confidence m = High \<and> source m = CommonName"
  by (auto simp: findExactMatches_def Let_def set_map_filter_iff split: option.splits)

lemma findExactMatches_has:
  assumes "w \<in> set COMMON_PLANT_NAMES" and "standaloneWord w (toLowerCase text)"
  shows "\<exists>m \<in> set (findExactMatches text). normalizedName m = w"
proof -
  have shape: "w \<noteq> []" "isWordChar (hd w)" "isWordChar (last w)" "toLowerCase w = w"
    using vocabulary_shape assms(1) by (auto simp: list_all_iff)
  from wordPattern_found [OF shape(1,2,3) assms(2)]
  obtain i e c where "rx_exec (wordPattern w) (toLowerCase text) 0 = Some (i, e, c)"
    by (metis prod_cases3)
  moreover have "w \<in> set sortedNames"
    using assms(1) by (simp add: sortedNames_def)
  ultimately have "\<lparr>originalText = substring (toLowerCase text) i e, normalizedName = toLowerCase w,
      confidence = High, source = CommonName\<rparr> \<in> set (findExactMatches text)"
    by (force simp: findExactMatches_def Let_def set_map_filter_iff)
  then show ?thesis using shape(4) by force
qed

lemma findRegistryMatches_empty: "plants reg = [] \<Longrightarrow> findRegistryMatches reg text = []"
  by (simp add: findRegistryMatches_def getAllPlants_def)

text \<open>
  Claim C5 as stated fails when the registry pass reports the name first: a registered
  plant of genus \<open>Ficus\<close> makes the mention of \<open>ficus\<close> a medium one.
\<close>

theorem vocabulary_word_shadowed_counterexample:
  "''ficus'' \<in> set COMMON_PLANT_NAMES \<and>
   standaloneWord ''ficus'' ''my ficus is dying'' \<and>
   extractPlantMentions (registerProcessed ficus newRegistry) ''my ficus is dying''
     = Some [\<lparr>originalText = ''Ficus'', normalizedName = ''ficus'', confidence = Medium,
               source = ExactMatch\<rparr>]"
  by code_simp

lemma findRegistryMatches_kinds:
  assumes "m \<in> set (findRegistryMatches reg text)"
  shows "source m = ExactMatch \<and>
         (confidence m = High \<or>
          confidence m = Medium \<and>
          (\<exists>p \<in> set (getAllPlants reg). originalText m = genus p \<and>
               normalizedName m = toLowerCase (genus p)))"
  using assms
  by (auto simp: findRegistryMatches_def registryMatchesOf_def Let_def
      split: option.splits if_splits)

text \<open>
  Claim C5, amended. When the lower-cased text (the string that the vocabulary pass searches)
  contains a name of the static vocabulary as a standalone word, the extraction returns
  exactly one mention with that normalised name. When the registry pass reports no mention
  of that name, it is the high-confidence mention of the vocabulary pass. Otherwise it is the
  first mention of that name that the registry pass reports; that mention has high confidence
  too unless it comes from the genus of a registered plant, which gives medium confidence.
\<close>

theorem vocabulary_word_is_mentioned:
  assumes voc: "w \<in> set COMMON_PLANT_NAMES"
    and occ: "standaloneWord w (toLowerCase text)"
  shows "\<exists>ms m. extractPlantMentions reg text = Some ms \<and>
           filter (\<lambda>x. normalizedName x = w) ms = [m] \<and>
           (case List.find (\<lambda>r. normalizedName r = w) (findRegistryMatches reg text) of
              None \<Rightarrow> confidence m = High \<and> source m = CommonName
            | Some r \<Rightarrow> m = r \<and> source m = ExactMatch \<and>
                (confidence m = High \<or>
                 confidence m = Medium \<and>
                 (\<exists>p \<in> set (getAllPlants reg). originalText m = genus p \<and>
                      w = toLowerCase (genus p))))"
proof -
  let ?rs = "findRegistryMatches reg text" and ?es = "findExactMatches text"
  let ?P = "\<lambda>x. normalizedName x = w"
  from findExactMatches_has [OF voc occ]
  obtain x where x: "x \<in> set ?es" "normalizedName x = w" by blast
  obtain ps where ps: "findPatternMatches text = Some ps"
    using findPatternMatches_total by blast
  let ?xs = "merged ?rs ?es ps"
  let ?ms = "sort_key (\<lambda>m. confidenceOrder (confidence m)) ?xs"
  have res: "extractPlantMentions reg text = Some ?ms"
    by (rule extractPlantMentions_merged [OF ps])
  have dx: "distinct (map normalizedName ?xs)"
    using merged_parts [of ?rs ?es ps] by auto
  have "mset (map normalizedName ?ms) = mset (map normalizedName ?xs)" by simp
  then have dm: "distinct (map normalizedName ?ms)"
    using dx by (metis mset_eq_imp_distinct_iff)
  have fe: "List.find ?P ?es \<noteq> None"
    using x by (auto simp: find_None_iff)
  have fm: "List.find ?P ?xs = List.find ?P (?rs @ ?es @ ps)" by (rule merged_find)
  have "List.find ?P (?rs @ ?es @ ps) \<noteq> None"
    using fe by (auto simp: find_append_first split: option.splits)
  then obtain m where m: "List.find ?P ?xs = Some m"
    using fm by auto
  then have mx: "m \<in> set ?xs" and mw: "normalizedName m = w"
    by (auto simp: find_Some_iff)
  have mem: "m \<in> set ?ms" using mx by simp
  have one: "filter ?P ?ms = [m]"
    using filter_unique [OF dm mem] mw by simp
  have kind: "case List.find ?P ?rs of
              None \<Rightarrow> confidence m = High \<and> source m = CommonName
            | Some r \<Rightarrow> m = r \<and> source m = ExactMatch \<and>
                (confidence m = High \<or>
                 confidence m = Medium \<and>
                 (\<exists>p \<in> set (getAllPlants reg). originalText m = genus p \<and>
                      w = toLowerCase (genus p)))"
  proof (cases "List.find ?P ?rs")
    case None
    then have "List.find ?P ?es = Some m"
      using m fm fe by (auto simp: find_append_first split: option.splits)
    then have "m \<in> set ?es" by (auto simp: find_Some_iff)
    then show ?thesis using None findExactMatches_all_high by simp
  next
    case (Some r)
    then have mr: "m = r" using m fm by (simp add: find_append_first)
    have "r \<in> set ?rs" using Some by (auto simp: find_Some_iff)
    from findRegistryMatches_kinds [OF this] show ?thesis
      using Some mr mw by auto
  qed
  show ?thesis
    using res one kind by (intro exI [of _ ?ms] exI [of _ m]) simp
qed

theorem vocabulary_word_is_mentioned_witness:
  "''tomato'' \<in> set COMMON_PLANT_NAMES \<and>
   standaloneWord ''tomato'' (toLowerCase ''My Tomato plant has yellow leaves'') \<and>
   (\<exists>ms m. extractPlantMentions newRegistry ''My Tomato plant has yellow leaves'' = Some ms \<and>
      filter (\<lambda>x. normalizedName x = ''tomato'') ms = [m] \<and> confidence m = High \<and>
      source m = CommonName)"
proof -
  have voc: "''tomato'' \<in> set COMMON_PLANT_NAMES" by code_simp
  have occ: "standaloneWord ''tomato'' (toLowerCase ''My Tomato plant has yellow leaves'')"
    by code_simp
  have none: "List.find (\<lambda>r. normalizedName r = ''tomato'')
      (findRegistryMatches newRegistry ''My Tomato plant has yellow leaves'') = None"
    by (simp add: findRegistryMatches_empty newRegistry_def)
  from vocabulary_word_is_mentioned [OF voc occ, of newRegistry]
  have "\<exists>ms m. extractPlantMentions newRegistry ''My Tomato plant has yellow leaves'' = Some ms \<and>
      filter (\<lambda>x. normalizedName x = ''tomato'') ms = [m] \<and> confidence m = High \<and>
      source m = CommonName"
    by (simp only: none option.case)
  then show ?thesis using voc occ by blast
qed

subsection \<open>Normal form of names\<close>


































end
